theory Spec2Isabelle
  imports Complex_Main "HOL-Library.Word" "HOL-Library.Multiset" "HOL-Library.Log_Nat"
begin

unbundle bit_operations_syntax

section \<open>JavaScript values used by the program\<close>

text \<open>
  Strings are lists of 8-bit characters (code units below 256).
  A Number that holds an integer is an \<open>int\<close>; 32-bit integer arithmetic
  (\<open>|\<close>, \<open>^\<close>, \<open>>>>\<close>, \<open>Math.imul\<close>) is arithmetic on \<open>32 word\<close>.
  A Number that a generator returns is the \<open>real\<close> it denotes.
\<close>

subsection \<open>Double-precision arithmetic\<close>

text \<open>
  The result of an arithmetic operation on doubles is the exact result rounded to the
  nearest double, ties to the even significand, and an infinity when the rounded
  magnitude reaches \<open>2^1024\<close>. Every finite double is an integer multiple of
  \<open>2^-1074\<close> with a significand of at most 53 bits, so rounding is done on the value
  scaled by \<open>2^1074\<close>: the bits beyond the 53 leading ones of its integer part are
  rounded away. Negative zero is not kept apart from zero: the program only uses the
  result as a property key, and both zeros name the key \<open>0\<close>.
\<close>

datatype js_number = Finite real | Pos_infinity | Neg_infinity

definition dbl_precision :: nat where
  "dbl_precision = 53"

definition dbl_scale :: nat where
  "dbl_scale = 1074"

definition dbl_top :: nat where
  "dbl_top = 2098"

definition round_half_even :: "real \<Rightarrow> int" where
  "round_half_even z =
     (let f = \<lfloor>z\<rfloor>; d = z - of_int f
      in if d < 1 / 2 then f
         else if 1 / 2 < d then f + 1
         else if even f then f else f + 1)"

definition round_scaled :: "nat \<Rightarrow> real \<Rightarrow> int" where
  "round_scaled p y =
     (let k = nat (bitlen \<lfloor>y\<rfloor> - int p)
      in round_half_even (y / 2 ^ k) * 2 ^ k)"

definition double_round_pos :: "real \<Rightarrow> js_number" where
  "double_round_pos x =
     (let m = round_scaled dbl_precision (x * 2 ^ dbl_scale)
      in if 2 ^ dbl_top \<le> m then Pos_infinity else Finite (of_int m / 2 ^ dbl_scale))"

definition double_round :: "real \<Rightarrow> js_number" where
  "double_round x =
     (if 0 \<le> x then double_round_pos x
      else (case double_round_pos (- x) of
              Finite v \<Rightarrow> Finite (- v)
            | Pos_infinity \<Rightarrow> Neg_infinity
            | Neg_infinity \<Rightarrow> Pos_infinity))"

text \<open>\<open>a * b\<close> on two doubles, and the reals that are doubles.\<close>

definition double_mul :: "real \<Rightarrow> real \<Rightarrow> js_number" where
  "double_mul a b = double_round (a * b)"

definition is_double :: "real \<Rightarrow> bool" where
  "is_double x = (double_round x = Finite x)"

subsection \<open>Arrays\<close>

text \<open>
  An array is a list of slots; a slot holds a value or \<open>undefined\<close> (\<open>None\<close>).
  A hole left by a write beyond the end reads as \<open>undefined\<close>, so it is \<open>None\<close> too.
\<close>

type_synonym 'a js_array = "'a option list"

text \<open>\<open>array[j]\<close> as an expression, for an integer \<open>j\<close> and an array with no
  properties besides its slots: \<open>undefined\<close> outside \<open>0 .. length - 1\<close>.\<close>

definition js_get :: "'a js_array \<Rightarrow> int \<Rightarrow> 'a option" where
  "js_get a j = (if 0 \<le> j \<and> nat j < length a then a ! nat j else None)"

text \<open>
  \<open>Math.floor\<close> of a Number, as the property key it names when used in \<open>array[j]\<close>.
  An integer from 0 to \<open>2^32 - 2\<close> is an array index and names a slot; any other key
  names an ordinary property of the array object. An array object is its slots together
  with the values of its ordinary properties (\<open>None\<close> for a property that is absent
  or \<open>undefined\<close>: both read as \<open>undefined\<close>).
\<close>

datatype js_key = Int_key int | Pos_inf_key | Neg_inf_key

definition floor_key :: "js_number \<Rightarrow> js_key" where
  "floor_key x =
     (case x of
        Finite v \<Rightarrow> Int_key \<lfloor>v\<rfloor>
      | Pos_infinity \<Rightarrow> Pos_inf_key
      | Neg_infinity \<Rightarrow> Neg_inf_key)"

type_synonym 'a js_object = "'a js_array \<times> (js_key \<Rightarrow> 'a option)"

definition is_array_index :: "int \<Rightarrow> bool" where
  "is_array_index j = (0 \<le> j \<and> j < 4294967295)"

definition obj_get :: "'a js_object \<Rightarrow> js_key \<Rightarrow> 'a option" where
  "obj_get obj key =
     (case key of
        Int_key j \<Rightarrow>
          (if 0 \<le> j \<and> nat j < length (fst obj) then fst obj ! nat j
           else if is_array_index j then None
           else snd obj key)
      | _ \<Rightarrow> snd obj key)"

text \<open>
  \<open>array[j] = v\<close>: inside the array the slot is replaced; at an array index beyond the
  end the array grows to length \<open>j + 1\<close>; any other key sets an ordinary property and
  leaves the slots alone.
\<close>

definition obj_set :: "'a js_object \<Rightarrow> js_key \<Rightarrow> 'a option \<Rightarrow> 'a js_object" where
  "obj_set obj key v =
     (case key of
        Int_key j \<Rightarrow>
          (if 0 \<le> j \<and> nat j < length (fst obj) then ((fst obj)[nat j := v], snd obj)
           else if is_array_index j
             then (fst obj @ replicate (nat j - length (fst obj)) None @ [v], snd obj)
           else (fst obj, (snd obj)(key := v)))
      | _ \<Rightarrow> (fst obj, (snd obj)(key := v)))"

section \<open>mulberry32\<close>

text \<open>
  \<open>mulberry32(seed)\<close> returns a closure over its parameter \<open>seed\<close>. The closure's
  body is \<open>mulberry32_next\<close>: it takes the current value of the captured variable and
  returns the float together with the value the variable holds afterwards.
  The float is \<open>k / 4294967296\<close> for the unsigned 32-bit \<open>k\<close> computed last; a double
  holds that quotient exactly.
\<close>

definition mulberry32_bits :: "int \<Rightarrow> 32 word \<times> 32 word" where
  "mulberry32_bits seed =
     (let s0 = (word_of_int seed :: 32 word);
          s1 = s0 + 0x6d2b79f5;
          t = (s1 XOR drop_bit 15 s1) * (1 OR s1);
          t2 = (t + (t XOR drop_bit 7 t) * (61 OR t)) XOR t
      in (t2 XOR drop_bit 14 t2, s1))"

definition mulberry32_next :: "int \<Rightarrow> real \<times> int" where
  "mulberry32_next seed =
     (let (out, s1) = mulberry32_bits seed
      in (real (unat out) / 4294967296, sint s1))"

text \<open>The closure created by \<open>mulberry32(seed)\<close> starts with the parameter as given.\<close>

definition mulberry32 :: "int \<Rightarrow> int" where
  "mulberry32 seed = seed"

text \<open>The value returned by call number \<open>k\<close> (from 0) of a state-passing generator.\<close>

fun rng_state :: "('s \<Rightarrow> real \<times> 's) \<Rightarrow> nat \<Rightarrow> 's \<Rightarrow> 's" where
  "rng_state rng 0 s = s"
| "rng_state rng (Suc k) s = rng_state rng k (snd (rng s))"

definition rng_draw :: "('s \<Rightarrow> real \<times> 's) \<Rightarrow> nat \<Rightarrow> 's \<Rightarrow> real" where
  "rng_draw rng k s = fst (rng (rng_state rng k s))"

section \<open>shuffleArray and fillSquares\<close>

text \<open>
  The loop of \<open>shuffleArray\<close>, entered with the loop variable \<open>i\<close>. The generator is
  any function from its state to the finite Number it returns and the next state.
  \<open>rng() * (i + 1)\<close> is the product of two doubles and \<open>j\<close> its floor. The
  destructuring swap reads \<open>array[j]\<close> and \<open>array[i]\<close> first, then writes \<open>array[i]\<close>,
  then \<open>array[j]\<close>.
\<close>

fun shuffle_loop :: "('s \<Rightarrow> real \<times> 's) \<Rightarrow> nat \<Rightarrow> 'a js_object \<Rightarrow> 's \<Rightarrow> 'a js_object \<times> 's" where
  "shuffle_loop rng 0 array s = (array, s)"
| "shuffle_loop rng (Suc n) array s =
     (let i = Suc n;
          (r, s') = rng s;
          j = floor_key (double_mul r (real (i + 1)));
          aj = obj_get array j;
          ai = obj_get array (Int_key (int i));
          array' = obj_set (obj_set array (Int_key (int i)) aj) j ai
      in shuffle_loop rng n array' s')"

text \<open>
  \<open>shuffleArray\<close> is called on arrays that have no property besides their slots, and
  returns the array it was given; nothing in the program reads a property of it that is
  not a slot, so the result is kept as the slots.
\<close>

definition shuffleArray :: "'a js_array \<Rightarrow> ('s \<Rightarrow> real \<times> 's) \<Rightarrow> 's \<Rightarrow> 'a js_array \<times> 's" where
  "shuffleArray array rng s =
     (let (obj, s') = shuffle_loop rng (length array - 1) (array, \<lambda>key. None) s
      in (fst obj, s'))"

text \<open>The index that a draw \<open>r\<close> selects among \<open>n\<close> slots, when its key is an integer.\<close>

definition draw_index :: "real \<Rightarrow> nat \<Rightarrow> nat" where
  "draw_index r n = (case floor_key (double_mul r (real n)) of Int_key j \<Rightarrow> nat j | _ \<Rightarrow> 0)"

text \<open>
  \<open>fillSquares\<close>: the loop pushes \<open>names[i % names.length]\<close> for \<open>i\<close> from 0 to 99.
  For an empty array \<open>i % 0\<close> is \<open>NaN\<close> and \<open>names[NaN]\<close> is \<open>undefined\<close>.
\<close>

function fill_loop :: "'a js_array \<Rightarrow> nat \<Rightarrow> 'a js_array \<Rightarrow> 'a js_array" where
  "fill_loop names i squares =
     (if i < 100
      then fill_loop names (i + 1)
             (squares @ [if length names = 0 then None
                         else js_get names (int (i mod length names))])
      else squares)"
  by pat_completeness auto
termination
  by (relation "measure (\<lambda>(names, i, squares). 100 - i)") auto

declare fill_loop.simps [simp del]

definition fillSquares :: "'a js_array \<Rightarrow> 'a js_array" where
  "fillSquares names = fill_loop names 0 []"

text \<open>
  The two grid-generation pipelines of the submit handlers, on the parsed name list and
  the parsed seed. \<open>src/docs/app.js\<close> fills the 100 squares and shuffles them;
  \<open>src/unnamed/part_000\<close> shuffles the name list and fills the squares from it.
  The generator's final state is dropped: the handler never uses it again.
\<close>

definition generate_docs_app :: "'a list \<Rightarrow> int \<Rightarrow> 'a js_array" where
  "generate_docs_app names seed =
     (let filled = fillSquares (map Some names);
          rng = mulberry32 seed
      in fst (shuffleArray filled mulberry32_next rng))"

definition generate_part_000 :: "'a list \<Rightarrow> int \<Rightarrow> 'a js_array" where
  "generate_part_000 names seed =
     (let rng = mulberry32 seed;
          names' = fst (shuffleArray (map Some names) mulberry32_next rng)
      in fillSquares names')"

section \<open>Generator instances as closures in a store\<close>

text \<open>
  Each call of \<open>mulberry32\<close> creates a closure with a variable \<open>seed\<close> of its own.
  The store lists the captured variables of the closures created so far; a generator is
  its index. Calling a generator runs the closure body on its own variable.
\<close>

type_synonym store = "int list"

definition mulberry32_create :: "int \<Rightarrow> store \<Rightarrow> nat \<times> store" where
  "mulberry32_create seed st = (length st, st @ [mulberry32 seed])"

definition call_gen :: "nat \<Rightarrow> store \<Rightarrow> real \<times> store" where
  "call_gen g st = (let (v, s') = mulberry32_next (st ! g) in (v, st[g := s']))"

text \<open>A schedule is the order in which generators are called; the trace records each
  call's generator and the value it returned.\<close>

fun run_calls :: "nat list \<Rightarrow> store \<Rightarrow> (nat \<times> real) list" where
  "run_calls [] st = []"
| "run_calls (g # gs) st = (let (v, st') = call_gen g st in (g, v) # run_calls gs st')"

definition values_of :: "nat \<Rightarrow> (nat \<times> real) list \<Rightarrow> real list" where
  "values_of g tr = map snd (filter (\<lambda>e. fst e = g) tr)"

section \<open>The assignment as the specification words it\<close>

text \<open>
  The specification's two steps, written on plain lists: the permutation step swaps
  positions \<open>i\<close> and \<open>j = floor(rng.next() * (i+1))\<close> for \<open>i\<close> from \<open>length-1\<close> down
  to 1; the cyclic fill takes \<open>output[k] = permuted[k mod len(permuted)]\<close>.
\<close>

definition swap_at :: "'a list \<Rightarrow> nat \<Rightarrow> nat \<Rightarrow> 'a list" where
  "swap_at xs i j = (xs[i := xs ! j])[j := xs ! i]"

fun spec_permute :: "('s \<Rightarrow> real \<times> 's) \<Rightarrow> nat \<Rightarrow> 'a list \<Rightarrow> 's \<Rightarrow> 'a list" where
  "spec_permute rng 0 xs s = xs"
| "spec_permute rng (Suc n) xs s =
     (let i = Suc n;
          (r, s') = rng s;
          j = nat \<lfloor>r * real (i + 1)\<rfloor>
      in spec_permute rng n (swap_at xs i j) s')"

definition spec_assign :: "'a list \<Rightarrow> ('s \<Rightarrow> real \<times> 's) \<Rightarrow> 's \<Rightarrow> 'a list" where
  "spec_assign names rng s =
     (let permuted = spec_permute rng (length names - 1) names s
      in map (\<lambda>k. permuted ! (k mod length permuted)) [0..<100])"

section \<open>Strings: parseNames, parseInt, toString\<close>

text \<open>
  White space as \<open>String.prototype.trim\<close> and \<open>parseInt\<close> see it, among the code
  units below 256: tab, line feed, vertical tab, form feed, carriage return, space and
  no-break space.
\<close>

definition is_js_space :: "char \<Rightarrow> bool" where
  "is_js_space c = (of_char c \<in> {9, 10, 11, 12, 13, 32, 160 :: nat})"

definition trim :: "string \<Rightarrow> string" where
  "trim s = rev (dropWhile is_js_space (rev (dropWhile is_js_space s)))"

text \<open>\<open>s.split(c)\<close> for a one-character separator: the empty string gives one empty piece.\<close>

fun split_on :: "char \<Rightarrow> string \<Rightarrow> string list" where
  "split_on c [] = [[]]"
| "split_on c (x # xs) =
     (if x = c then [] # split_on c xs
      else (case split_on c xs of [] \<Rightarrow> [[x]] | y # ys \<Rightarrow> (x # y) # ys))"

text \<open>\<open>pieces.join(sep)\<close> on an array of strings.\<close>

fun join :: "string \<Rightarrow> string list \<Rightarrow> string" where
  "join sep [] = []"
| "join sep [x] = x"
| "join sep (x # y # ys) = x @ sep @ join sep (y # ys)"

definition newline :: char where
  "newline = CHR 0x0A"

definition parseNames :: "string \<Rightarrow> string list" where
  "parseNames text =
     filter (\<lambda>s. length s > 0) (map (\<lambda>s. trim s) (split_on newline text))"

text \<open>
  \<open>parseInt(str, 10)\<close>: leading white space is skipped, one sign is read, then the
  longest run of decimal digits; with no digit the result is \<open>NaN\<close> (\<open>None\<close>). The
  result is the integer the digits denote, which is what the Number holds below \<open>2^53\<close>;
  from there on JavaScript keeps the nearest double, which this definition does not follow.
\<close>

definition is_digit :: "char \<Rightarrow> bool" where
  "is_digit c = (48 \<le> (of_char c :: nat) \<and> (of_char c :: nat) \<le> 57)"

definition digits_value :: "string \<Rightarrow> nat" where
  "digits_value ds = foldl (\<lambda>acc c. 10 * acc + (of_char c - 48)) 0 ds"

definition parseInt :: "string \<Rightarrow> int option" where
  "parseInt str =
     (let s = dropWhile is_js_space str;
          sign = (if s \<noteq> [] \<and> hd s = CHR ''-'' then - 1 else 1);
          s' = (if s \<noteq> [] \<and> (hd s = CHR ''+'' \<or> hd s = CHR ''-'') then tl s else s);
          z = takeWhile is_digit s'
      in if z = [] then None else Some (sign * int (digits_value z)))"

text \<open>
  \<open>seed.toString()\<close> for a Number holding an integer: the decimal digits, with a minus
  sign when negative, below \<open>10^21\<close>; from \<open>10^21\<close> on the exponent form
  \<open>d.ddd...e+N\<close> (the model prints the digits of the integer; JavaScript prints the
  shortest digits that identify the double).
\<close>

definition digit_char :: "nat \<Rightarrow> char" where
  "digit_char d = ''0123456789'' ! d"

fun nat_digits :: "nat \<Rightarrow> string" where
  "nat_digits n =
     (if n < 10 then [digit_char n]
      else nat_digits (n div 10) @ [digit_char (n mod 10)])"

declare nat_digits.simps [simp del]

definition number_toString :: "int \<Rightarrow> string" where
  "number_toString n =
     (let ds = nat_digits (nat \<bar>n\<bar>);
          sgn = (if n < 0 then ''-'' else [])
      in if \<bar>n\<bar> < 10 ^ 21 then sgn @ ds
         else (let m = rev (dropWhile (\<lambda>c. c = CHR ''0'') (rev ds))
               in sgn @ [hd m] @ (if tl m = [] then [] else CHR ''.'' # tl m)
                    @ ''e+'' @ nat_digits (length ds - 1)))"

section \<open>The page: form, output section, submit handlers\<close>

text \<open>
  The four inputs of the form, and the output section as the list of children the
  handler appends after clearing it. The text of the info line is kept as its three
  cases; the table is kept as the squares and the two team labels it is built from;
  the share button is kept with the variables its click handler closes over.
\<close>

record form =
  names_input :: string
  seed_input :: string
  col_team_input :: string
  row_team_input :: string

datatype info_text =
  Each_once
  | Squares_each nat nat
  | Some_more nat nat nat

datatype node =
  Info info_text
  | Table "string js_array" string string
  | Print_btn
  | Share_btn "string js_array" int string string

record output_section =
  hidden :: bool
  children :: "node list"

datatype alert = No_names | Too_many_names | Bad_seed

definition info_of :: "nat \<Rightarrow> info_text" where
  "info_of n =
     (if n = 100 then Each_once
      else (let perName = 100 div n; extra = 100 mod n
            in if extra = 0 then Squares_each n perName
               else Some_more n perName (perName + 1)))"

text \<open>The submit handler of \<open>src/docs/app.js\<close>.\<close>

definition submit_docs_app :: "form \<Rightarrow> output_section \<Rightarrow> alert option \<times> output_section" where
  "submit_docs_app f outputSection =
     (let namesText = names_input f;
          seed = parseInt (seed_input f);
          colTeam = trim (col_team_input f);
          rowTeam = trim (row_team_input f);
          names = parseNames namesText
      in if length names = 0 then (Some No_names, outputSection)
         else if length names > 100 then (Some Too_many_names, outputSection)
         else (case seed of
                 None \<Rightarrow> (Some Bad_seed, outputSection)
               | Some sd \<Rightarrow>
                   (let filled = fillSquares (map Some names);
                        rng = mulberry32 sd;
                        (filled', rng') = shuffleArray filled mulberry32_next rng
                    in (None, \<lparr>hidden = False,
                               children = [Info (info_of (length names)),
                                           Table filled' colTeam rowTeam]\<rparr>))))"

text \<open>
  The submit handler of \<open>src/unnamed/part_000\<close>. \<open>shuffleArray\<close> works in place, so
  after it the variable \<open>names\<close> is the shuffled array; the info line, the fill and the
  share button's click handler all read that array.
\<close>

definition submit_part_000 :: "form \<Rightarrow> output_section \<Rightarrow> alert option \<times> output_section" where
  "submit_part_000 f outputSection =
     (let namesText = names_input f;
          seed = parseInt (seed_input f);
          colTeam = trim (col_team_input f);
          rowTeam = trim (row_team_input f);
          names = parseNames namesText
      in if length names = 0 then (Some No_names, outputSection)
         else if length names > 100 then (Some Too_many_names, outputSection)
         else (case seed of
                 None \<Rightarrow> (Some Bad_seed, outputSection)
               | Some sd \<Rightarrow>
                   (let rng = mulberry32 sd;
                        (names', rng') = shuffleArray (map Some names) mulberry32_next rng;
                        filled = fillSquares names'
                    in (None, \<lparr>hidden = False,
                               children = [Info (info_of (length names')),
                                           Table filled colTeam rowTeam,
                                           Print_btn,
                                           Share_btn names' sd colTeam rowTeam]\<rparr>))))"

text \<open>The squares shown by the table of an output section, if it has one.\<close>

fun table_squares :: "node list \<Rightarrow> string js_array option" where
  "table_squares [] = None"
| "table_squares (Table squares colTeam rowTeam # ns) = Some squares"
| "table_squares (n # ns) = table_squares ns"

section \<open>The share link\<close>

text \<open>
  The query string is kept as the list of key and value pairs of the
  \<open>URLSearchParams\<close> object; its percent-encoding and decoding by the browser are not
  modelled. \<open>names.join(",")\<close> prints \<open>undefined\<close> slots as empty strings.
\<close>

type_synonym params = "(string \<times> string) list"

definition array_join :: "string js_array \<Rightarrow> string \<Rightarrow> string" where
  "array_join a sep = join sep (map (\<lambda>x. case x of None \<Rightarrow> [] | Some s \<Rightarrow> s) a)"

text \<open>The click handler of the share button, on the variables it closes over.\<close>

definition share_params :: "string js_array \<Rightarrow> int \<Rightarrow> string \<Rightarrow> string \<Rightarrow> params" where
  "share_params names seed colTeam rowTeam =
     [(''names'', array_join names '',''), (''seed'', number_toString seed)]
     @ (if colTeam \<noteq> [] then [(''colTeam'', colTeam)] else [])
     @ (if rowTeam \<noteq> [] then [(''rowTeam'', rowTeam)] else [])"

text \<open>
  The value read back from a textarea has its line breaks normalised: a carriage return
  followed by a line feed, and any other carriage return, is one line feed.
\<close>

fun textarea_value :: "string \<Rightarrow> string" where
  "textarea_value [] = []"
| "textarea_value [c] = (if c = CHR 0x0D then [newline] else [c])"
| "textarea_value (c # d # cs) =
     (if c = CHR 0x0D \<and> d = CHR 0x0A then newline # textarea_value cs
      else if c = CHR 0x0D then newline # textarea_value (d # cs)
      else c # textarea_value (d # cs))"

text \<open>The script at the end of \<open>src/unnamed/part_000\<close>: it fills the form from the
  query string and, when names were given, dispatches the submit event. The names go
  into the textarea; the other three inputs keep the text written to them.\<close>

definition load_params :: "params \<Rightarrow> form \<Rightarrow> form" where
  "load_params ps f =
     (let f1 = (case map_of ps ''names'' of
                  Some v \<Rightarrow>
                    f\<lparr>names_input := textarea_value (join [newline] (split_on (CHR '','') v))\<rparr>
                | None \<Rightarrow> f);
          f2 = (case map_of ps ''seed'' of Some v \<Rightarrow> f1\<lparr>seed_input := v\<rparr> | None \<Rightarrow> f1);
          f3 = (case map_of ps ''colTeam'' of Some v \<Rightarrow> f2\<lparr>col_team_input := v\<rparr> | None \<Rightarrow> f2);
          f4 = (case map_of ps ''rowTeam'' of Some v \<Rightarrow> f3\<lparr>row_team_input := v\<rparr> | None \<Rightarrow> f3)
      in f4)"

definition page_load :: "params \<Rightarrow> form \<Rightarrow> output_section \<Rightarrow> form \<times> alert option \<times> output_section" where
  "page_load ps f outputSection =
     (let f' = load_params ps f
      in if map_of ps ''names'' \<noteq> None then (f', submit_part_000 f' outputSection)
         else (f', None, outputSection))"

text \<open>A click on the share button of an output section builds the link's parameters.\<close>

fun share_link_of :: "node list \<Rightarrow> params option" where
  "share_link_of [] = None"
| "share_link_of (Share_btn names seed colTeam rowTeam # ns) =
     Some (share_params names seed colTeam rowTeam)"
| "share_link_of (n # ns) = share_link_of ns"

text \<open>A freshly loaded page: empty inputs, hidden and empty output section.\<close>

definition fresh_form :: form where
  "fresh_form = \<lparr>names_input = [], seed_input = [], col_team_input = [], row_team_input = []\<rparr>"

definition fresh_output :: output_section where
  "fresh_output = \<lparr>hidden = True, children = []\<rparr>"

section \<open>Rounding to a double\<close>

lemma round_half_even_int: "round_half_even (of_int m) = m"
  by (simp add: round_half_even_def)

lemma round_half_even_le: "of_int (round_half_even z) \<le> z + 1 / 2"
proof -
  have "z - of_int \<lfloor>z\<rfloor> < 1 / 2 \<or> 1 / 2 \<le> z - of_int \<lfloor>z\<rfloor>"
    by linarith
  then show ?thesis
    by (auto simp: round_half_even_def Let_def) linarith+
qed

lemma round_half_even_nonneg: "0 \<le> z \<Longrightarrow> 0 \<le> round_half_even z"
  by (auto simp: round_half_even_def Let_def)

lemma round_scaled_of_int:
  "round_scaled p (of_int M)
   = round_half_even (of_int M / 2 ^ nat (bitlen M - int p)) * 2 ^ nat (bitlen M - int p)"
  by (simp only: round_scaled_def Let_def floor_of_int)

text \<open>A scaled value that already fits the precision is left alone.\<close>

lemma round_scaled_exact:
  assumes "0 \<le> K" "K < 2 ^ p" "M = K * 2 ^ e"
  shows "round_scaled p (of_int M) = M"
proof (cases "K = 0")
  case True
  then have "M = 0"
    using assms(3) by simp
  then show ?thesis
    by (simp add: round_scaled_def round_half_even_def)
next
  case False
  then have K: "0 < K"
    using assms(1) by simp
  define k where "k = nat (bitlen M - int p)"
  have "bitlen M = bitlen K + int e"
    using K assms(3) by simp
  moreover have "bitlen K \<le> int p"
    using assms(2) by (simp add: bitlen_le_iff_power)
  ultimately have ke: "k \<le> e"
    by (simp add: k_def)
  obtain d where d: "e = k + d"
    using ke by (metis le_add_diff_inverse)
  have M: "M = (K * 2 ^ d) * 2 ^ k"
    by (simp add: assms(3) d power_add)
  have "(of_int M :: real) / 2 ^ k = of_int (K * 2 ^ d)"
    by (simp add: M)
  then have "round_half_even (of_int M / 2 ^ k) = K * 2 ^ d"
    by (simp only: round_half_even_int)
  then have "round_scaled p (of_int M) = K * 2 ^ d * 2 ^ k"
    by (simp only: round_scaled_of_int k_def)
  then show ?thesis
    by (simp only: M)
qed

text \<open>Rounding moves a positive scaled integer up by at most half a unit in the last place,
  which is at most the value divided by \<open>2 ^ p\<close>.\<close>

lemma round_scaled_upper:
  assumes "0 < M" "0 < p"
  shows "of_int (round_scaled p (of_int M)) \<le> (of_int M :: real) + of_int M / 2 ^ p"
proof -
  define k where "k = nat (bitlen M - int p)"
  have rs: "round_scaled p (of_int M) = round_half_even (of_int M / 2 ^ k) * 2 ^ k"
    by (simp only: round_scaled_of_int k_def)
  show ?thesis
  proof (cases k)
    case 0
    then have "round_scaled p (of_int M) = M"
      by (simp add: rs round_half_even_int)
    moreover have "0 \<le> (of_int M :: real) / 2 ^ p"
      using assms(1) by simp
    ultimately show ?thesis
      by simp
  next
    case (Suc k')
    then have b: "bitlen M = int k + int p"
      by (simp add: k_def)
    have "nat (bitlen M - 1) = k' + p"
      using b Suc by simp
    then have "(2::int) ^ (k' + p) \<le> M"
      using bitlen_bounds [OF assms(1)] by simp
    then have "real_of_int (2 ^ (k' + p)) \<le> real_of_int M"
      by (simp only: of_int_le_iff)
    then have "(2::real) ^ k' * 2 ^ p \<le> of_int M"
      by (simp add: power_add)
    then have half: "(2::real) ^ k' \<le> of_int M / 2 ^ p"
      by (simp add: pos_le_divide_eq)
    have "of_int (round_half_even (of_int M / 2 ^ k)) \<le> (of_int M :: real) / 2 ^ k + 1 / 2"
      by (rule round_half_even_le)
    then have "of_int (round_half_even (of_int M / 2 ^ k)) * (2::real) ^ k
               \<le> (of_int M / 2 ^ k + 1 / 2) * 2 ^ k"
      by (rule mult_right_mono) simp
    also have "\<dots> = of_int M + 2 ^ k'"
      by (simp add: distrib_right Suc)
    finally have "of_int (round_scaled p (of_int M)) \<le> (of_int M :: real) + 2 ^ k'"
      by (simp add: rs)
    then show ?thesis
      using half by linarith
  qed
qed

lemma round_scaled_nonneg: "0 \<le> y \<Longrightarrow> 0 \<le> round_scaled p y"
  by (simp add: round_scaled_def Let_def round_half_even_nonneg)

text \<open>A value below \<open>2 ^ q\<close> that rounding leaves alone is at most \<open>2 ^ q - 2 ^ (q - p)\<close>.\<close>

lemma round_scaled_fixed_below:
  assumes f: "round_scaled p (of_int m) = m" and m: "0 \<le> m" "m < 2 ^ q" and pq: "0 < p" "p \<le> q"
  shows "m \<le> 2 ^ q - 2 ^ (q - p)"
proof (cases "bitlen m \<le> int q - 1")
  case True
  then have "m < 2 ^ nat (int q - 1)"
    using bitlen_le_iff_power [of m "int q - 1"] by blast
  then have "m < 2 ^ (q - 1)"
    by (simp add: nat_diff_distrib')
  moreover have "(2::int) ^ q = 2 * 2 ^ (q - 1)"
    using pq by (cases q) simp_all
  moreover have "(2::int) ^ (q - p) \<le> 2 ^ (q - 1)"
    using pq by (intro power_increasing) simp_all
  ultimately show ?thesis
    by linarith
next
  case False
  have "bitlen m \<le> int q"
    using m(2) by (simp add: bitlen_le_iff_power)
  with False have b: "bitlen m = int q"
    by simp
  define k where "k = q - p"
  have k: "nat (bitlen m - int p) = k"
    using b pq by (simp add: k_def)
  define c where "c = round_half_even (of_int m / 2 ^ k)"
  have mc: "m = c * 2 ^ k"
    using f by (simp only: round_scaled_of_int k c_def)
  have q: "(2::int) ^ q = 2 ^ p * 2 ^ k"
    using pq by (simp add: k_def power_add [symmetric])
  have "c * 2 ^ k < 2 ^ p * 2 ^ k"
    using m(2) mc q by simp
  then have "c < 2 ^ p"
    by simp
  then have "c + 1 \<le> 2 ^ p"
    by simp
  then have "(c + 1) * 2 ^ k \<le> 2 ^ p * 2 ^ k"
    by (intro mult_right_mono) simp_all
  then have "c * 2 ^ k + 2 ^ k \<le> 2 ^ q"
    by (simp add: q distrib_right)
  then show ?thesis
    by (simp add: mc k_def)
qed

text \<open>The product of such a value with a positive integer rounds to less than the integer
  times \<open>2 ^ q\<close>.\<close>

lemma round_scaled_product_below:
  assumes R: "0 \<le> R" "R \<le> 2 ^ q - 2 ^ (q - p)" and pq: "0 < p" "p \<le> q" and n: "0 < n"
  shows "round_scaled p (of_int (R * int n)) < int n * 2 ^ q"
proof (cases "R = 0")
  case True
  then show ?thesis
    using n by (simp add: round_scaled_def round_half_even_def)
next
  case False
  define M where "M = R * int n"
  have M: "0 < M"
    using False R(1) n by (simp add: M_def)
  have q: "(2::real) ^ q = 2 ^ p * 2 ^ (q - p)"
    using pq by (simp add: power_add [symmetric])
  define u :: real where "u = 2 ^ (q - p)"
  define t :: real where "t = 2 ^ p"
  have u: "0 < u" and t: "1 < t"
    using pq by (simp_all add: u_def t_def)
  have "real_of_int R \<le> real_of_int (2 ^ q - 2 ^ (q - p))"
    using R(2) by (simp only: of_int_le_iff)
  then have Rr: "real_of_int R \<le> t * u - u"
    by (simp add: q u_def t_def)
  have "real_of_int M = real_of_int R * real n"
    by (simp add: M_def)
  also have "\<dots> \<le> (t * u - u) * real n"
    using Rr by (intro mult_right_mono) simp_all
  finally have Mr: "real_of_int M \<le> (t * u - u) * real n" .
  have "of_int (round_scaled p (of_int M)) \<le> (of_int M :: real) + of_int M / 2 ^ p"
    by (rule round_scaled_upper [OF M pq(1)])
  also have "\<dots> = of_int M * (1 + 1 / t)"
    by (simp add: t_def distrib_left)
  also have "\<dots> \<le> ((t * u - u) * real n) * (1 + 1 / t)"
    using Mr t by (intro mult_right_mono) simp_all
  also have "\<dots> = real n * (t * u) * ((1 - 1 / t) * (1 + 1 / t))"
    using t by (simp add: field_simps)
  also have "\<dots> < real n * (t * u) * 1"
  proof -
    have "(1 - 1 / t) * (1 + 1 / t) = 1 - (1 / t) * (1 / t)"
      by (simp add: algebra_simps)
    moreover have "0 < (1 / t) * (1 / t)"
      using t by simp
    ultimately have "(1 - 1 / t) * (1 + 1 / t) < 1"
      by linarith
    moreover have "0 < real n * (t * u)"
      using n t u by simp
    ultimately show ?thesis
      by (intro mult_strict_left_mono)
  qed
  finally have "real_of_int (round_scaled p (of_int M)) < real n * 2 ^ q"
    by (simp add: q u_def t_def)
  then have "real_of_int (round_scaled p (of_int M)) < real_of_int (int n * 2 ^ q)"
    by simp
  then show ?thesis
    by (simp only: of_int_less_iff M_def)
qed

lemma double_round_pos_exact:
  assumes "0 \<le> K" "K < 2 ^ dbl_precision" "d \<le> dbl_scale"
  shows "double_round_pos (of_int K / 2 ^ d) = Finite (of_int K / 2 ^ d)"
proof -
  obtain e where e: "dbl_scale = d + e"
    using assms(3) by (metis le_add_diff_inverse)
  define M where "M = K * 2 ^ e"
  have x: "(of_int K / 2 ^ d) * (2::real) ^ dbl_scale = of_int M"
    by (simp add: e power_add M_def)
  have r: "round_scaled dbl_precision (of_int M) = M"
    using assms(1,2) M_def by (rule round_scaled_exact)
  have "K * 2 ^ e < 2 ^ dbl_precision * 2 ^ e"
    using assms(2) by simp
  also have "\<dots> = 2 ^ (dbl_precision + e)"
    by (simp add: power_add)
  also have "\<dots> \<le> (2::int) ^ dbl_top"
    using e by (intro power_increasing) (simp_all add: dbl_precision_def dbl_scale_def dbl_top_def)
  finally have top: "\<not> 2 ^ dbl_top \<le> M"
    by (simp add: M_def)
  have v: "(of_int M :: real) / 2 ^ dbl_scale = of_int K / 2 ^ d"
    by (simp add: e power_add M_def)
  show ?thesis
    by (simp only: double_round_pos_def Let_def x r top if_False v)
qed

lemma double_round_exact:
  assumes "\<bar>K\<bar> < 2 ^ dbl_precision" "d \<le> dbl_scale"
  shows "double_round (of_int K / 2 ^ d) = Finite (of_int K / 2 ^ d)"
proof (cases "0 \<le> K")
  case True
  then have "double_round_pos (of_int K / 2 ^ d) = Finite (of_int K / 2 ^ d)"
    using assms by (intro double_round_pos_exact) simp_all
  then show ?thesis
    using True by (simp add: double_round_def)
next
  case False
  then have "double_round_pos (of_int (- K) / 2 ^ d) = Finite (of_int (- K) / 2 ^ d)"
    using assms by (intro double_round_pos_exact) simp_all
  moreover have "\<not> 0 \<le> (of_int K :: real) / 2 ^ d"
    using False by (simp add: divide_less_0_iff not_le)
  ultimately show ?thesis
    by (simp add: double_round_def)
qed

text \<open>A scaled value with \<open>t\<close> bits too many loses them to the rounding.\<close>

lemma round_scaled_shift:
  assumes "2 ^ (p + t - 1) \<le> K" "K < 2 ^ (p + t)" "0 < p" "M = K * 2 ^ e"
  shows "round_scaled p (of_int M) = round_half_even (of_int K / 2 ^ t) * 2 ^ (t + e)"
proof -
  have K: "0 < K"
    using assms(1) by (smt (verit) zero_less_power)
  have "bitlen K \<le> int (p + t)"
    using assms(2) bitlen_le_iff_power [of K "int (p + t)"] by (simp only: nat_int) simp
  moreover have "int (p + t) \<le> bitlen K"
    using assms(1) bitlen_ge_iff_power [of "int (p + t)" K] by (simp only: nat_int) simp
  ultimately have "bitlen K = int (p + t)"
    by simp
  then have "bitlen M = int (p + t + e)"
    using K assms(4) by simp
  then have k: "nat (bitlen M - int p) = t + e"
    by simp
  have "(of_int M :: real) / 2 ^ (t + e) = of_int K / 2 ^ t"
    by (simp add: assms(4) power_add)
  then show ?thesis
    by (simp only: round_scaled_of_int k)
qed

text \<open>
  The double nearest to one third is \<open>6004799503160661 / 2^54\<close>. Three times it is
  \<open>1 - 2^-54\<close>, halfway between the doubles \<open>1 - 2^-53\<close> and 1: the product rounds
  to 1.
\<close>

lemma double_round_third_times_3:
  "double_round (18014398509481983 / 2 ^ 54) = Finite 1"
proof -
  have x: "(18014398509481983 / 2 ^ 54) * (2::real) ^ dbl_scale = of_int (18014398509481983 * 2 ^ 1020)"
    by (simp add: dbl_scale_def)
  have h: "round_half_even (of_int 18014398509481983 / 2 ^ 1) = 9007199254740992"
    by (simp add: round_half_even_def Let_def)
  have r: "round_scaled dbl_precision (of_int (18014398509481983 * 2 ^ 1020))
           = 9007199254740992 * 2 ^ (1 + 1020)"
    using round_scaled_shift [of 53 1 18014398509481983 "18014398509481983 * 2 ^ 1020" 1020] h
    by (simp add: dbl_precision_def)
  have top: "\<not> (2::int) ^ dbl_top \<le> 9007199254740992 * 2 ^ (1 + 1020)"
  proof -
    have "(9007199254740992::int) * 2 ^ (1 + 1020) = 2 ^ 53 * 2 ^ 1021"
      by simp
    also have "\<dots> = 2 ^ 1074"
      by (simp only: power_add [symmetric]) simp
    also have "\<dots> < (2::int) ^ 2098"
      by (rule power_strict_increasing) simp_all
    finally show ?thesis
      by (simp add: dbl_top_def)
  qed
  have v: "(of_int (9007199254740992 * 2 ^ (1 + 1020)) :: real) / 2 ^ dbl_scale = 1"
  proof -
    have "(9007199254740992::int) * 2 ^ (1 + 1020) = 2 ^ 53 * 2 ^ 1021"
      by simp
    also have "\<dots> = 2 ^ 1074"
      by (simp only: power_add [symmetric]) simp
    finally show ?thesis
      by (simp add: dbl_scale_def)
  qed
  have "double_round_pos (18014398509481983 / 2 ^ 54) = Finite 1"
    by (simp only: double_round_pos_def Let_def x r top if_False v)
  then show ?thesis
    by (simp add: double_round_def)
qed

text \<open>A double in the half-open interval from 0 to 1, times a positive integer that is
  at most \<open>2 ^ 32\<close>, rounds to a double below that integer: the floor is a valid index.\<close>

lemma draw_key_in_range:
  assumes r: "0 \<le> r" "r < 1" "is_double r" and n: "0 < n" "n \<le> 2 ^ 32"
  shows "\<exists>j. floor_key (double_mul r (real n)) = Int_key (int j) \<and> j < n"
proof -
  let ?P = "(2::real) ^ dbl_scale"
  define m0 where "m0 = round_scaled dbl_precision (r * ?P)"
  have "double_round_pos r = Finite r"
    using r(1,3) by (simp add: is_double_def double_round_def)
  then have "(if 2 ^ dbl_top \<le> m0 then Pos_infinity else Finite (of_int m0 / ?P)) = Finite r"
    by (simp only: double_round_pos_def Let_def m0_def)
  then have "of_int m0 / ?P = r"
    by (simp split: if_splits)
  then have rP: "r * ?P = of_int m0"
    by (simp add: field_simps)
  have fx: "round_scaled dbl_precision (of_int m0) = m0"
    using m0_def by (simp only: rP)
  have m0: "0 \<le> m0"
    using r(1) by (simp add: m0_def round_scaled_nonneg)
  have "r * ?P < 1 * ?P"
    using r(2) by (intro mult_strict_right_mono) simp_all
  then have "of_int m0 < ?P"
    by (simp add: rP)
  then have "real_of_int m0 < real_of_int (2 ^ dbl_scale)"
    by simp
  then have m0lt: "m0 < 2 ^ dbl_scale"
    by (simp only: of_int_less_iff)
  have pq: "0 < dbl_precision" "dbl_precision \<le> dbl_scale"
    by (simp_all add: dbl_precision_def dbl_scale_def)
  have below: "m0 \<le> 2 ^ dbl_scale - 2 ^ (dbl_scale - dbl_precision)"
    by (rule round_scaled_fixed_below [OF fx m0 m0lt pq])
  define m1 where "m1 = round_scaled dbl_precision (of_int (m0 * int n))"
  have m1lt: "m1 < int n * 2 ^ dbl_scale"
    unfolding m1_def by (rule round_scaled_product_below [OF m0 below pq n(1)])
  have m1: "0 \<le> m1"
    using m0 by (simp add: m1_def round_scaled_nonneg)
  have prod: "r * real n * ?P = of_int (m0 * int n)"
    using rP by (simp add: mult.commute mult.left_commute)
  have "int n * 2 ^ dbl_scale \<le> 2 ^ 32 * 2 ^ dbl_scale"
    using n(2) by (intro mult_right_mono) (simp_all add: of_nat_le_iff [symmetric] del: of_nat_le_iff)
  also have "\<dots> = (2::int) ^ (32 + dbl_scale)"
    by (simp add: power_add)
  also have "\<dots> \<le> 2 ^ dbl_top"
    by (intro power_increasing) (simp_all add: dbl_scale_def dbl_top_def)
  finally have top: "\<not> 2 ^ dbl_top \<le> m1"
    using m1lt by simp
  have rn: "0 \<le> r * real n"
    using r(1) by simp
  have "double_round_pos (r * real n) = Finite (of_int m1 / ?P)"
    by (simp only: double_round_pos_def Let_def prod m1_def [symmetric] top if_False)
  then have dm: "double_mul r (real n) = Finite (of_int m1 / ?P)"
    using rn by (simp add: double_mul_def double_round_def)
  have lo: "0 \<le> \<lfloor>real_of_int m1 / ?P\<rfloor>"
    using m1 by simp
  have "real_of_int m1 < real_of_int (int n * 2 ^ dbl_scale)"
    using m1lt by (simp only: of_int_less_iff)
  then have "real_of_int m1 / ?P < real n"
    by (simp add: pos_divide_less_eq)
  then have hi: "\<lfloor>real_of_int m1 / ?P\<rfloor> < int n"
    by (simp add: floor_less_iff)
  define j where "j = nat \<lfloor>real_of_int m1 / ?P\<rfloor>"
  have "floor_key (double_mul r (real n)) = Int_key (int j)"
    using lo by (simp add: dm floor_key_def j_def)
  moreover have "j < n"
    using lo hi unfolding j_def by linarith
  ultimately show ?thesis
    by blast
qed

section \<open>Arrays, the shuffle loop and the fill loop\<close>

lemma floor_index_bounds:
  assumes "0 \<le> r" "r < 1" "0 < m"
  shows "0 \<le> \<lfloor>r * real m\<rfloor> \<and> nat \<lfloor>r * real m\<rfloor> < m"
proof -
  have "0 \<le> r * real m"
    using assms by simp
  then have lo: "0 \<le> \<lfloor>r * real m\<rfloor>"
    by simp
  have "r * real m < real m"
    using assms by simp
  then have "\<lfloor>r * real m\<rfloor> < int m"
    by (simp add: floor_less_iff)
  with lo show ?thesis
    by linarith
qed

lemma length_swap_at: "length (swap_at xs i j) = length xs"
  by (simp add: swap_at_def)

lemma mset_swap_at: "i < length xs \<Longrightarrow> j < length xs \<Longrightarrow> mset (swap_at xs i j) = mset xs"
  unfolding swap_at_def using mset_swap [of j xs i] by simp

lemma obj_swap_in_range:
  assumes "i < length a" "j < length a"
  shows "obj_set (obj_set (a, pr) (Int_key (int i)) (obj_get (a, pr) (Int_key (int j))))
           (Int_key (int j)) (obj_get (a, pr) (Int_key (int i)))
         = (swap_at a i j, pr)"
  using assms by (simp add: obj_get_def obj_set_def swap_at_def)

lemma draw_index_in_range:
  assumes "0 \<le> r" "r < 1" "is_double r" "0 < n" "n \<le> 2 ^ 32"
  shows "floor_key (double_mul r (real n)) = Int_key (int (draw_index r n)) \<and> draw_index r n < n"
proof -
  obtain j where j: "floor_key (double_mul r (real n)) = Int_key (int j)" "j < n"
    using draw_key_in_range [OF assms] by blast
  then have "draw_index r n = j"
    by (simp add: draw_index_def)
  then show ?thesis
    using j by simp
qed

text \<open>One pass of the loop when the generator returns a double in the half-open
  interval from 0 to 1: a swap of two slots, and no other property is touched.\<close>

lemma shuffle_loop_unfold:
  assumes u: "\<forall>s. 0 \<le> fst (rng s) \<and> fst (rng s) < 1 \<and> is_double (fst (rng s))"
    and n: "Suc n < length a" and l: "length a \<le> 4294967295"
  shows "draw_index (fst (rng s)) (Suc n + 1) \<le> Suc n
     \<and> shuffle_loop rng (Suc n) (a, pr) s
       = shuffle_loop rng n (swap_at a (Suc n) (draw_index (fst (rng s)) (Suc n + 1)), pr)
           (snd (rng s))"
proof -
  obtain r s' where rs: "rng s = (r, s')"
    by (cases "rng s")
  have r: "0 \<le> r" "r < 1" "is_double r"
    using u rs by (metis fst_conv)+
  have b: "0 < Suc n + 1" "Suc n + 1 \<le> 2 ^ 32"
    using n l by simp_all
  define j where "j = draw_index r (Suc n + 1)"
  have k: "floor_key (double_mul r (real (Suc n + 1))) = Int_key (int j)" and jb: "j < Suc n + 1"
    using draw_index_in_range [OF r b] by (simp_all add: j_def)
  have jl: "j < length a"
    using jb n by linarith
  have step: "obj_set (obj_set (a, pr) (Int_key (int (Suc n))) (obj_get (a, pr) (Int_key (int j))))
                (Int_key (int j)) (obj_get (a, pr) (Int_key (int (Suc n))))
              = (swap_at a (Suc n) j, pr)"
    using obj_swap_in_range [OF n jl] .
  have "shuffle_loop rng (Suc n) (a, pr) s = shuffle_loop rng n (swap_at a (Suc n) j, pr) s'"
    by (simp only: shuffle_loop.simps Let_def rs prod.case k step)
  then show ?thesis
    using jb by (simp add: rs j_def)
qed

lemma shuffle_loop_unit:
  assumes u: "\<forall>s. 0 \<le> fst (rng s) \<and> fst (rng s) < 1 \<and> is_double (fst (rng s))"
  shows "n < length a \<Longrightarrow> length a \<le> 4294967295 \<Longrightarrow>
     \<exists>a'. fst (shuffle_loop rng n (a, pr) s) = (a', pr)
          \<and> length a' = length a \<and> mset a' = mset a"
proof (induction n arbitrary: a s)
  case 0
  then show ?case by simp
next
  case (Suc n)
  define j where "j = draw_index (fst (rng s)) (Suc n + 1)"
  have un: "j \<le> Suc n"
    "shuffle_loop rng (Suc n) (a, pr) s = shuffle_loop rng n (swap_at a (Suc n) j, pr) (snd (rng s))"
    using shuffle_loop_unfold [OF u Suc.prems, where s = s and pr = pr] by (simp_all add: j_def)
  have jl: "j < length a"
    using un(1) Suc.prems(1) by linarith
  have "n < length (swap_at a (Suc n) j)" "length (swap_at a (Suc n) j) \<le> 4294967295"
    using Suc.prems by (simp_all add: length_swap_at)
  from Suc.IH [OF this, of "snd (rng s)"] show ?case
    unfolding un(2) using Suc.prems(1) jl by (simp add: length_swap_at mset_swap_at)
qed

lemma shuffleArray_unit:
  assumes u: "\<forall>s. 0 \<le> fst (rng s) \<and> fst (rng s) < 1 \<and> is_double (fst (rng s))"
    and l: "length a \<le> 4294967295"
  shows "length (fst (shuffleArray a rng s)) = length a \<and> mset (fst (shuffleArray a rng s)) = mset a"
proof (cases a)
  case Nil
  then show ?thesis by (simp add: shuffleArray_def)
next
  case (Cons x xs)
  then have "length a - 1 < length a" by simp
  from shuffle_loop_unit [OF u this l, of "\<lambda>key. None" s] show ?thesis
    by (auto simp: shuffleArray_def case_prod_beta)
qed

lemma fill_loop_map:
  "i \<le> 100 \<Longrightarrow> fill_loop names i squares =
     squares @ map (\<lambda>k. if length names = 0 then None else js_get names (int (k mod length names))) [i..<100]"
proof (induction names i squares rule: fill_loop.induct)
  case (1 names i squares)
  show ?case
  proof (cases "i < 100")
    case True
    then have "[i..<100] = i # [i + 1..<100]"
      by (simp add: upt_conv_Cons)
    with 1 True show ?thesis
      by (subst fill_loop.simps) simp
  next
    case False
    with 1 have "i = 100" by simp
    then show ?thesis
      by (subst fill_loop.simps) simp
  qed
qed

lemma fillSquares_map:
  "fillSquares names =
     map (\<lambda>k. if length names = 0 then None else js_get names (int (k mod length names))) [0..<100]"
  using fill_loop_map [of 0 names "[]"] by (simp add: fillSquares_def)

lemma length_fillSquares: "length (fillSquares names) = 100"
  by (simp add: fillSquares_map)

section \<open>Properties of the generator\<close>

lemma mulberry32_next_dyadic:
  "\<exists>k. k < 4294967296 \<and> fst (mulberry32_next s) = real k / 4294967296"
proof -
  obtain out s1 where b: "mulberry32_bits s = (out, s1)"
    by (cases "mulberry32_bits s")
  have "unat out < 2 ^ LENGTH(32)"
    by (rule unsigned_less)
  then have "unat out < 4294967296"
    by simp
  moreover have "fst (mulberry32_next s) = real (unat out) / 4294967296"
    by (simp add: mulberry32_next_def b)
  ultimately show ?thesis
    by blast
qed

lemma mulberry32_next_range:
  "0 \<le> fst (mulberry32_next s) \<and> fst (mulberry32_next s) < 1"
proof -
  obtain k :: nat where k: "k < 4294967296" "fst (mulberry32_next s) = real k / 4294967296"
    using mulberry32_next_dyadic by blast
  then show ?thesis
    by simp
qed

text \<open>
  C7: every value returned by the generator is \<open>k / 4294967296\<close> for a natural number
  \<open>k\<close> below \<open>4294967296\<close>, hence lies in the half-open interval from 0 to 1. The
  statement covers every call, since it holds for every value of the captured variable.
\<close>

theorem mulberry32_value_dyadic_unit_interval:
  "(\<exists>k. k < 4294967296 \<and> fst (mulberry32_next s) = real k / 4294967296)
   \<and> 0 \<le> fst (mulberry32_next s) \<and> fst (mulberry32_next s) < 1"
  using mulberry32_next_dyadic [of s] mulberry32_next_range [of s] by blast

text \<open>The values of the generator are doubles, and their products with an integer up to
  \<open>2^21\<close> need no rounding.\<close>

lemma dyadic_32_double:
  assumes "K < 2 ^ 53"
  shows "double_round (real K / 4294967296) = Finite (real K / 4294967296)"
proof -
  have "\<bar>int K\<bar> < 2 ^ dbl_precision"
    using assms by (simp add: dbl_precision_def of_nat_less_iff [symmetric] del: of_nat_less_iff)
  moreover have "32 \<le> dbl_scale"
    by (simp add: dbl_scale_def)
  ultimately have "double_round (of_int (int K) / 2 ^ 32) = Finite (of_int (int K) / 2 ^ 32)"
    by (rule double_round_exact)
  then show ?thesis
    by simp
qed

lemma mulberry32_next_unit_double:
  "0 \<le> fst (mulberry32_next s) \<and> fst (mulberry32_next s) < 1 \<and> is_double (fst (mulberry32_next s))"
proof -
  obtain k :: nat where k: "k < 4294967296" "fst (mulberry32_next s) = real k / 4294967296"
    using mulberry32_next_dyadic by blast
  have "k < 2 ^ 53"
    using k(1) by simp
  then have "is_double (fst (mulberry32_next s))"
    by (simp add: is_double_def k(2) dyadic_32_double)
  then show ?thesis
    using mulberry32_next_range [of s] by simp
qed

lemma mulberry32_draw_index:
  assumes "n \<le> 2097152"
  shows "draw_index (fst (mulberry32_next s)) n = nat \<lfloor>fst (mulberry32_next s) * real n\<rfloor>"
proof -
  obtain k :: nat where k: "k < 4294967296" "fst (mulberry32_next s) = real k / 4294967296"
    using mulberry32_next_dyadic by blast
  have "k * n \<le> 4294967295 * 2097152"
    using k(1) assms by (intro mult_mono) simp_all
  then have "k * n < 2 ^ 53"
    by simp
  then have "double_round (real (k * n) / 4294967296) = Finite (real (k * n) / 4294967296)"
    by (rule dyadic_32_double)
  then have "double_mul (real k / 4294967296) (real n) = Finite (real k / 4294967296 * real n)"
    by (simp add: double_mul_def)
  then show ?thesis
    by (simp add: draw_index_def floor_key_def k(2))
qed

section \<open>Draws consumed, the loop as swaps, the fill as repetition\<close>

lemma shuffle_loop_state: "snd (shuffle_loop rng n obj s) = rng_state rng n s"
proof (induction n arbitrary: obj s)
  case 0
  then show ?case by simp
next
  case (Suc n)
  obtain r s' where rs: "rng s = (r, s')"
    by (cases "rng s")
  show ?case
    by (simp add: rs Let_def Suc.IH)
qed

lemma shuffleArray_loop:
  "shuffleArray a rng s
   = (fst (fst (shuffle_loop rng (length a - 1) (a, \<lambda>key. None) s)),
      snd (shuffle_loop rng (length a - 1) (a, \<lambda>key. None) s))"
  by (simp add: shuffleArray_def case_prod_beta)

lemma shuffleArray_state: "snd (shuffleArray a rng s) = rng_state rng (length a - 1) s"
  by (simp add: shuffleArray_loop shuffle_loop_state)

text \<open>With the mulberry32 generator, on an array of at most \<open>2^21\<close> elements, the loop
  is the permutation step of the specification.\<close>

lemma shuffle_loop_mulberry32_spec:
  "n < length a \<Longrightarrow> length a \<le> 2097152 \<Longrightarrow>
     fst (fst (shuffle_loop mulberry32_next n (a, pr) s)) = spec_permute mulberry32_next n a s"
proof (induction n arbitrary: a s)
  case 0
  then show ?case by simp
next
  case (Suc n)
  have u: "\<forall>s. 0 \<le> fst (mulberry32_next s) \<and> fst (mulberry32_next s) < 1
             \<and> is_double (fst (mulberry32_next s))"
    using mulberry32_next_unit_double by blast
  obtain r s' where rs: "mulberry32_next s = (r, s')"
    by (cases "mulberry32_next s")
  define j where "j = nat \<lfloor>r * real (Suc n + 1)\<rfloor>"
  have l: "length a \<le> 4294967295"
    using Suc.prems(2) by simp
  have "draw_index (fst (mulberry32_next s)) (Suc n + 1) = j"
    using mulberry32_draw_index [of "Suc n + 1" s] Suc.prems by (simp add: j_def rs)
  then have unf: "shuffle_loop mulberry32_next (Suc n) (a, pr) s
                  = shuffle_loop mulberry32_next n (swap_at a (Suc n) j, pr) s'"
    using shuffle_loop_unfold [OF u Suc.prems(1) l, where s = s and pr = pr] by (simp add: rs)
  have unf2: "spec_permute mulberry32_next (Suc n) a s
              = spec_permute mulberry32_next n (swap_at a (Suc n) j) s'"
    by (simp only: spec_permute.simps Let_def rs prod.case j_def [symmetric])
  have "n < length (swap_at a (Suc n) j)" "length (swap_at a (Suc n) j) \<le> 2097152"
    using Suc.prems by (simp_all add: length_swap_at)
  from Suc.IH [OF this, of s'] show ?case
    unfolding unf unf2 .
qed

lemma shuffleArray_mulberry32_spec:
  assumes "length a \<le> 2097152"
  shows "fst (shuffleArray a mulberry32_next s) = spec_permute mulberry32_next (length a - 1) a s"
proof (cases a)
  case Nil
  then show ?thesis by (simp add: shuffleArray_def)
next
  case (Cons x xs)
  then have "length a - 1 < length a" by simp
  from shuffle_loop_mulberry32_spec [OF this assms, of "\<lambda>key. None" s] show ?thesis
    by (simp add: shuffleArray_loop)
qed

lemma cyclic_map_multiple:
  assumes "0 < length p"
  shows "map (\<lambda>k. p ! (k mod length p)) [0..<q * length p] = concat (replicate q p)"
proof (induction q)
  case 0
  then show ?case by simp
next
  case (Suc q)
  let ?n = "length p"
  have "[0..<q * ?n + ?n] = [0..<q * ?n] @ [q * ?n..<q * ?n + ?n]"
    by (rule upt_add_eq_append) simp
  then have "[0..<Suc q * ?n] = [0..<q * ?n] @ map (\<lambda>i. i + q * ?n) [0..<?n]"
    by (simp add: map_add_upt add.commute)
  moreover have "map (\<lambda>k. p ! (k mod ?n)) (map (\<lambda>i. i + q * ?n) [0..<?n]) = map (\<lambda>i. p ! i) [0..<?n]"
    by (simp add: comp_def)
  moreover have "concat (replicate (Suc q) p) = concat (replicate q p) @ p"
    by (metis concat.simps(2) concat_append replicate_Suc replicate_append_same concat.simps(1) append_Nil2)
  ultimately show ?case
    using Suc.IH by (simp add: map_nth)
qed

lemma cyclic_map_decomp:
  assumes "0 < length p"
  shows "map (\<lambda>k. p ! (k mod length p)) [0..<m]
         = concat (replicate (m div length p) p) @ take (m mod length p) p"
proof -
  let ?n = "length p"
  let ?q = "m div ?n"
  let ?r = "m mod ?n"
  have m: "m = ?q * ?n + ?r"
    by simp
  have r: "?r < ?n"
    using assms by simp
  have "[0..<?q * ?n + ?r] = [0..<?q * ?n] @ [?q * ?n..<?q * ?n + ?r]"
    by (rule upt_add_eq_append) simp
  then have "[0..<?q * ?n + ?r] = [0..<?q * ?n] @ map (\<lambda>i. i + ?q * ?n) [0..<?r]"
    by (simp add: map_add_upt add.commute)
  moreover have "map (\<lambda>k. p ! (k mod ?n)) (map (\<lambda>i. i + ?q * ?n) [0..<?r]) = map (\<lambda>i. p ! i) [0..<?r]"
    using r by (simp add: comp_def)
  moreover have "map (\<lambda>i. p ! i) [0..<?r] = take ?r p"
    using r by (intro nth_equalityI) simp_all
  ultimately have "map (\<lambda>k. p ! (k mod ?n)) [0..<?q * ?n + ?r] = concat (replicate ?q p) @ take ?r p"
    using cyclic_map_multiple [OF assms, of ?q] by simp
  then show ?thesis
    using m by simp
qed

lemma fillSquares_cyclic:
  assumes "0 < length p"
  shows "fillSquares p = map (\<lambda>k. p ! (k mod length p)) [0..<100]"
  using assms by (simp add: fillSquares_map js_get_def)

lemma fillSquares_decomp:
  assumes "0 < length p"
  shows "fillSquares p = concat (replicate (100 div length p) p) @ take (100 mod length p) p"
  using cyclic_map_decomp [OF assms, of 100] fillSquares_cyclic [OF assms] by simp

lemma mulberry32_next_1: "mulberry32_next 1 = (2693262067 / 4294967296, 1831565814)"
  by (simp add: mulberry32_next_def mulberry32_bits_def Let_def)

lemma mulberry32_next_2: "mulberry32_next 1831565814 = (11749833 / 4294967296, - 631835669)"
  by (simp add: mulberry32_next_def mulberry32_bits_def Let_def)

section \<open>shuffleArray as a permutation\<close>

lemma mulberry32_unit_doubles:
  "\<forall>s. 0 \<le> fst (mulberry32_next s) \<and> fst (mulberry32_next s) < 1
       \<and> is_double (fst (mulberry32_next s))"
  using mulberry32_next_unit_double by blast

lemma double_mul_1_2: "double_mul 1 2 = Finite 2"
  using double_round_exact [of 2 0] by (simp add: double_mul_def dbl_precision_def)

text \<open>
  A function that always returns 1 (\<open>function () { return 1; }\<close>) on a two-element
  array: the index drawn is 2, the read of \<open>array[2]\<close> is \<open>undefined\<close> and the write
  to \<open>array[2]\<close> makes the array one longer: the result is \<open>[1, undefined, 2]\<close>.
\<close>

lemma shuffleArray_constant_1:
  "fst (shuffleArray [Some (1::nat), Some 2] (\<lambda>s::unit. (1, s)) ()) = [Some 1, None, Some 2]"
  by (simp add: shuffleArray_def Let_def double_mul_1_2 floor_key_def obj_get_def obj_set_def
      is_array_index_def)

theorem shuffleArray_permutation_counterexample:
  "mset (fst (shuffleArray [Some (1::nat), Some 2] (\<lambda>s::unit. (1, s)) ()))
     \<noteq> mset [Some 1, Some 2]"
  using shuffleArray_constant_1 by simp

text \<open>
  C9 (amended): for every array (of at most \<open>2^32 - 1\<close> elements, as every JavaScript
  array) and every RNG function whose values are numbers in the half-open interval from
  0 to 1, \<open>shuffleArray\<close> returns a reordering of its input: the same elements with
  the same multiplicities, none added, dropped or duplicated, and the same length.
\<close>

theorem shuffleArray_permutation:
  "(\<forall>s. 0 \<le> fst (rng s) \<and> fst (rng s) < 1 \<and> is_double (fst (rng s))) \<Longrightarrow>
   length a \<le> 4294967295 \<Longrightarrow>
     mset (fst (shuffleArray a rng s)) = mset a \<and> length (fst (shuffleArray a rng s)) = length a"
  using shuffleArray_unit [of rng a s] by blast

theorem shuffleArray_permutation_witness:
  "(\<forall>s. 0 \<le> fst (mulberry32_next s) \<and> fst (mulberry32_next s) < 1
        \<and> is_double (fst (mulberry32_next s)))
   \<and> length [Some ''A'', Some ''B'', Some ''C''] \<le> (4294967295::nat)
   \<and> fst (shuffleArray [Some ''A'', Some ''B'', Some ''C''] mulberry32_next (mulberry32 1))
        = [Some ''C'', Some ''A'', Some ''B'']
   \<and> mset (fst (shuffleArray [Some ''A'', Some ''B'', Some ''C''] mulberry32_next (mulberry32 1)))
        = mset [Some ''A'', Some ''B'', Some ''C'']"
proof -
  have l: "length [Some ''A'', Some ''B'', Some ''C''] \<le> (4294967295::nat)"
    by simp
  have "length [Some ''A'', Some ''B'', Some ''C''] \<le> (2097152::nat)"
    by simp
  then have "fst (shuffleArray [Some ''A'', Some ''B'', Some ''C''] mulberry32_next (mulberry32 1))
        = spec_permute mulberry32_next (length [Some ''A'', Some ''B'', Some ''C''] - 1)
            [Some ''A'', Some ''B'', Some ''C''] (mulberry32 1)"
    by (rule shuffleArray_mulberry32_spec)
  also have "\<dots> = [Some ''C'', Some ''A'', Some ''B'']"
    by (simp add: numeral_2_eq_2 mulberry32_def mulberry32_next_1 mulberry32_next_2 Let_def swap_at_def)
  finally have v: "fst (shuffleArray [Some ''A'', Some ''B'', Some ''C''] mulberry32_next (mulberry32 1))
        = [Some ''C'', Some ''A'', Some ''B'']" .
  from shuffleArray_permutation [OF mulberry32_unit_doubles l, of "mulberry32 1"]
    mulberry32_unit_doubles l v
  show ?thesis by blast
qed

text \<open>
  The index is the floor of the rounded product. With a function that always returns
  the double nearest to one third, on \<open>[1, 2, 3]\<close>: the first pass draws
  \<open>floor(1) = 1\<close>, not \<open>floor(1 - 2^-54) = 0\<close>, and the result is \<open>[3, 1, 2]\<close>.
\<close>

lemma double_mul_third_3:
  "double_mul (6004799503160661 / 18014398509481984) 3 = Finite 1"
  using double_round_third_times_3 by (simp add: double_mul_def)

lemma double_mul_third_2:
  "double_mul (6004799503160661 / 18014398509481984) 2 = Finite (6004799503160661 / 9007199254740992)"
  using double_round_exact [of 6004799503160661 53] 
  by (simp add: double_mul_def dbl_precision_def dbl_scale_def)

lemma shuffleArray_rounded_draw:
  "fst (shuffleArray [Some (1::nat), Some 2, Some 3]
          (\<lambda>s::unit. (6004799503160661 / 18014398509481984, s)) ())
   = [Some 3, Some 1, Some 2]"
  by (simp add: shuffleArray_def Let_def double_mul_third_3 double_mul_third_2 floor_key_def
      obj_get_def obj_set_def is_array_index_def numeral_3_eq_3)

text \<open>
  A negative index names an ordinary property of the array object, which the next pass
  reads back. With a function that always returns \<open>-0.25\<close>, on \<open>[1, 2, 3]\<close>: both
  passes draw \<open>-1\<close>; the first leaves \<open>[1, 2, undefined]\<close> and stores 3 under
  \<open>-1\<close>, the second reads that 3 into slot 1: the result is \<open>[1, 3, undefined]\<close>.
\<close>

lemma double_mul_neg_3: "double_mul (- 1 / 4) 3 = Finite (- 3 / 4)"
  using double_round_exact [of "- 3" 2]
  by (simp add: double_mul_def dbl_precision_def dbl_scale_def)

lemma double_mul_neg_2: "double_mul (- 1 / 4) 2 = Finite (- 1 / 2)"
  using double_round_exact [of "- 1" 1]
  by (simp add: double_mul_def dbl_precision_def dbl_scale_def)

lemma shuffleArray_negative_draw:
  "fst (shuffleArray [Some (1::nat), Some 2, Some 3] (\<lambda>s::unit. (- 1 / 4, s)) ())
   = [Some 1, Some 3, None]"
  using double_mul_neg_3 double_mul_neg_2
  by (simp add: shuffleArray_def Let_def floor_key_def
      obj_get_def obj_set_def is_array_index_def numeral_3_eq_3)

text \<open>
  C3: \<open>fillSquares\<close> composed with the shuffle returns exactly 100 elements, for
  every array and every generator (the loop of \<open>fillSquares\<close> pushes one element for
  each \<open>i\<close> from 0 to 99 whatever the shuffle returned); so does each of the two
  pipelines with the mulberry32 generator, for every name list and seed.
\<close>

theorem assignment_returns_100:
  "length (fillSquares (fst (shuffleArray names rng s))) = 100
   \<and> length (generate_part_000 ns seed) = 100
   \<and> length (generate_docs_app ns seed) = 100"
proof -
  have "length (generate_docs_app ns seed) = 100"
    using shuffleArray_unit [OF mulberry32_unit_doubles, of "fillSquares (map Some ns)" "mulberry32 seed"]
    by (simp add: generate_docs_app_def Let_def length_fillSquares)
  then show ?thesis
    by (simp add: length_fillSquares generate_part_000_def Let_def)
qed

section \<open>The two pipelines and the specification's two steps\<close>

lemma spec_permute_unfold:
  "spec_permute rng (Suc n) xs s
   = spec_permute rng n (swap_at xs (Suc n) (nat \<lfloor>fst (rng s) * real (Suc n + 1)\<rfloor>)) (snd (rng s))"
  by (simp add: case_prod_beta Let_def)

lemma nth_swap_at_other:
  "k \<noteq> i \<Longrightarrow> k \<noteq> j \<Longrightarrow> swap_at xs i j ! k = xs ! k"
  by (simp add: swap_at_def)

lemma nth_swap_at_first:
  "i < length xs \<Longrightarrow> j < length xs \<Longrightarrow> swap_at xs i j ! i = xs ! j"
  by (cases "i = j") (simp_all add: swap_at_def)

lemma spec_permute_nth_above:
  assumes u: "\<forall>s. 0 \<le> fst (rng s) \<and> fst (rng s) < 1"
  shows "n < k \<Longrightarrow> k < length xs \<Longrightarrow> spec_permute rng n xs s ! k = xs ! k"
proof (induction n arbitrary: xs s)
  case 0
  then show ?case by simp
next
  case (Suc n)
  let ?j = "nat \<lfloor>fst (rng s) * real (Suc n + 1)\<rfloor>"
  have "?j < Suc n + 1"
    using floor_index_bounds [of "fst (rng s)" "Suc n + 1"] u by simp
  then have j: "?j \<le> Suc n"
    by simp
  have "spec_permute rng n (swap_at xs (Suc n) ?j) (snd (rng s)) ! k = swap_at xs (Suc n) ?j ! k"
    using Suc.prems by (intro Suc.IH) (simp_all add: length_swap_at)
  also have "\<dots> = xs ! k"
    using Suc.prems j by (intro nth_swap_at_other) simp_all
  finally show ?case
    by (simp only: spec_permute_unfold)
qed

lemma spec_permute_nth_top:
  assumes u: "\<forall>s. 0 \<le> fst (rng s) \<and> fst (rng s) < 1"
    and n: "Suc n < length xs"
  shows "spec_permute rng (Suc n) xs s ! Suc n = xs ! nat \<lfloor>fst (rng s) * real (Suc n + 1)\<rfloor>"
proof -
  let ?j = "nat \<lfloor>fst (rng s) * real (Suc n + 1)\<rfloor>"
  have "?j < Suc n + 1"
    using floor_index_bounds [of "fst (rng s)" "Suc n + 1"] u by simp
  then have j: "?j \<le> Suc n"
    by simp
  have "spec_permute rng n (swap_at xs (Suc n) ?j) (snd (rng s)) ! Suc n = swap_at xs (Suc n) ?j ! Suc n"
    using n by (intro spec_permute_nth_above [OF u]) (simp_all add: length_swap_at)
  also have "\<dots> = xs ! ?j"
    using n j by (intro nth_swap_at_first) simp_all
  finally show ?thesis
    by (simp only: spec_permute_unfold)
qed

lemma swap_at_map:
  "i < length xs \<Longrightarrow> j < length xs \<Longrightarrow> swap_at (map f xs) i j = map f (swap_at xs i j)"
  by (simp add: swap_at_def map_update)

lemma spec_permute_length:
  "length (spec_permute rng n xs s) = length xs"
proof (induction n arbitrary: xs s)
  case 0
  then show ?case by simp
next
  case (Suc n)
  obtain r s' where rs: "rng s = (r, s')"
    by (cases "rng s")
  show ?case
    by (simp add: rs Let_def Suc.IH length_swap_at)
qed

lemma spec_permute_map:
  assumes u: "\<forall>s. 0 \<le> fst (rng s) \<and> fst (rng s) < 1"
  shows "n < length xs \<Longrightarrow> spec_permute rng n (map f xs) s = map f (spec_permute rng n xs s)"
proof (induction n arbitrary: xs s)
  case 0
  then show ?case by simp
next
  case (Suc n)
  obtain r s' where rs: "rng s = (r, s')"
    by (cases "rng s")
  have r: "0 \<le> r" "r < 1"
    using u rs by (metis fst_conv)+
  define j where "j = nat \<lfloor>r * real (Suc n + 1)\<rfloor>"
  have jb: "j < Suc n + 1"
    using floor_index_bounds [OF r, of "Suc n + 1"] by (simp add: j_def)
  have jl: "j < length xs"
    using jb Suc.prems by linarith
  have a: "spec_permute rng (Suc n) (map f xs) s = spec_permute rng n (swap_at (map f xs) (Suc n) j) s'"
    by (simp only: spec_permute.simps Let_def rs prod.case j_def [symmetric])
  have b: "spec_permute rng (Suc n) xs s = spec_permute rng n (swap_at xs (Suc n) j) s'"
    by (simp only: spec_permute.simps Let_def rs prod.case j_def [symmetric])
  have c: "swap_at (map f xs) (Suc n) j = map f (swap_at xs (Suc n) j)"
    using Suc.prems jl by (rule swap_at_map)
  have "n < length (swap_at xs (Suc n) j)"
    using Suc.prems by (simp add: length_swap_at)
  from Suc.IH [OF this, of s'] show ?case
    by (simp only: a b c)
qed

lemma generate_part_000_spec:
  assumes "1 \<le> length names" "length names \<le> 100"
  shows "generate_part_000 names seed = map Some (spec_assign names mulberry32_next (mulberry32 seed))"
proof -
  let ?s = "mulberry32 seed"
  let ?n = "length names - 1"
  have u: "\<forall>s. 0 \<le> fst (mulberry32_next s) \<and> fst (mulberry32_next s) < 1"
    using mulberry32_next_range by blast
  have ne: "names \<noteq> []"
    using assms(1) by auto
  have n: "?n < length names"
    using ne by simp
  have "length (map Some names) \<le> 2097152"
    using assms(2) by simp
  then have "fst (shuffleArray (map Some names) mulberry32_next ?s)
        = spec_permute mulberry32_next (length (map Some names) - 1) (map Some names) ?s"
    by (rule shuffleArray_mulberry32_spec)
  also have "\<dots> = map Some (spec_permute mulberry32_next ?n names ?s)"
    using spec_permute_map [OF u n] by simp
  finally have p: "fst (shuffleArray (map Some names) mulberry32_next ?s)
        = map Some (spec_permute mulberry32_next ?n names ?s)" .
  let ?p = "spec_permute mulberry32_next ?n names ?s"
  have lp: "0 < length ?p"
    using ne by (simp add: spec_permute_length)
  then have "fillSquares (map Some ?p) = map (\<lambda>k. map Some ?p ! (k mod length ?p)) [0..<100]"
    using fillSquares_cyclic [of "map Some ?p"] by simp
  also have "\<dots> = map Some (map (\<lambda>k. ?p ! (k mod length ?p)) [0..<100])"
    using lp by simp
  finally show ?thesis
    by (simp add: generate_part_000_def spec_assign_def Let_def p)
qed

lemma mulberry32_next_2026: "mulberry32_next 2026 = (1955961175 / 4294967296, 1831567839)"
  by (simp add: mulberry32_next_def mulberry32_bits_def Let_def)

lemma generate_docs_app_spec:
  "generate_docs_app names seed
   = spec_permute mulberry32_next 99 (fillSquares (map Some names)) (mulberry32 seed)"
proof -
  have "length (fillSquares (map Some names)) \<le> 2097152"
    by (simp add: length_fillSquares)
  from shuffleArray_mulberry32_spec [OF this, of "mulberry32 seed"] show ?thesis
    by (simp add: generate_docs_app_def Let_def length_fillSquares)
qed

lemma generate_docs_app_last:
  assumes "names \<noteq> []"
  shows "generate_docs_app names seed ! 99
     = Some (names ! (nat \<lfloor>fst (mulberry32_next (mulberry32 seed)) * 100\<rfloor> mod length names))"
proof -
  let ?a = "fillSquares (map Some names)"
  let ?j = "nat \<lfloor>fst (mulberry32_next (mulberry32 seed)) * real (Suc 98 + 1)\<rfloor>"
  have u: "\<forall>s. 0 \<le> fst (mulberry32_next s) \<and> fst (mulberry32_next s) < 1"
    using mulberry32_next_range by blast
  have l: "Suc 98 < length ?a"
    by (simp add: length_fillSquares)
  have "?j < Suc 98 + 1"
    using floor_index_bounds [of "fst (mulberry32_next (mulberry32 seed))" "Suc 98 + 1"] u by simp
  then have j: "?j \<le> Suc 98"
    by simp
  have "spec_permute mulberry32_next (Suc 98) ?a (mulberry32 seed) ! Suc 98 = ?a ! ?j"
    using spec_permute_nth_top [OF u l] .
  moreover have "?a ! ?j = Some (names ! (?j mod length names))"
    using j assms by (simp add: fillSquares_cyclic)
  ultimately show ?thesis
    by (simp add: generate_docs_app_spec)
qed

text \<open>
  The handler of \<open>src/docs/app.js\<close> does the two steps in the other order. For the
  names A, B and seed 1 its last square holds A, while permuting first and filling
  cyclically puts B there.
\<close>

theorem docs_app_not_permute_then_fill:
  "generate_docs_app [''A'', ''B''] 1
     \<noteq> map Some (spec_assign [''A'', ''B''] mulberry32_next (mulberry32 1))"
proof
  assume e: "generate_docs_app [''A'', ''B''] 1
     = map Some (spec_assign [''A'', ''B''] mulberry32_next (mulberry32 1))"
  have "generate_docs_app [''A'', ''B''] 1 ! 99 = Some ''A''"
    by (simp add: generate_docs_app_last mulberry32_def mulberry32_next_1 flip: numeral_2_eq_2)
  moreover have "map Some (spec_assign [''A'', ''B''] mulberry32_next (mulberry32 1)) ! 99 = Some ''B''"
    by (simp add: spec_assign_def mulberry32_def mulberry32_next_1 Let_def swap_at_def
        flip: numeral_2_eq_2)
  ultimately show False
    using e by simp
qed

text \<open>
  C1 (amended): for every name list of length 1 to 100 and every integer seed, the
  pipeline of the submit handler of \<open>src/unnamed/part_000\<close> computes the 100 squares
  in two steps in this order: the permutation of the name list by the shuffle that takes
  \<open>i\<close> from \<open>length-1\<close> down to 1, draws \<open>j = floor(rng.next() * (i+1))\<close> and swaps
  positions \<open>i\<close> and \<open>j\<close>, then the cyclic fill
  \<open>output[k] = permuted[k mod len(permuted)]\<close>. (The handler of \<open>src/docs/app.js\<close>
  fills first and shuffles the 100 squares.)
\<close>

theorem part_000_permute_then_fill:
  "1 \<le> length names \<Longrightarrow> length names \<le> 100 \<Longrightarrow>
     generate_part_000 names seed = map Some (spec_assign names mulberry32_next (mulberry32 seed))"
  by (rule generate_part_000_spec)

theorem part_000_permute_then_fill_witness:
  "1 \<le> length [''A'', ''B'', ''C''] \<and> length [''A'', ''B'', ''C''] \<le> (100::nat)
   \<and> generate_part_000 [''A'', ''B'', ''C''] 1
       = map Some (spec_assign [''A'', ''B'', ''C''] mulberry32_next (mulberry32 1))
   \<and> spec_permute mulberry32_next 2 [''A'', ''B'', ''C''] (mulberry32 1) = [''C'', ''A'', ''B'']"
proof -
  have a: "1 \<le> length [''A'', ''B'', ''C'']" and b: "length [''A'', ''B'', ''C''] \<le> (100::nat)"
    by simp_all
  have c: "spec_permute mulberry32_next 2 [''A'', ''B'', ''C''] (mulberry32 1) = [''C'', ''A'', ''B'']"
    by (simp add: numeral_2_eq_2 mulberry32_def mulberry32_next_1 mulberry32_next_2 Let_def swap_at_def)
  from part_000_permute_then_fill [OF a b, of 1] a b c show ?thesis
    by blast
qed

text \<open>
  The two pipelines on the names A, B with seed 2026: the last square is B in
  \<open>src/docs/app.js\<close> and A in \<open>src/unnamed/part_000\<close>.
\<close>

theorem pipelines_differ:
  "generate_docs_app [''A'', ''B''] 2026 \<noteq> generate_part_000 [''A'', ''B''] 2026"
proof
  assume e: "generate_docs_app [''A'', ''B''] 2026 = generate_part_000 [''A'', ''B''] 2026"
  have "generate_docs_app [''A'', ''B''] 2026 ! 99 = Some ''B''"
    by (simp add: generate_docs_app_last mulberry32_def mulberry32_next_2026 flip: numeral_2_eq_2)
  moreover have "generate_part_000 [''A'', ''B''] 2026 ! 99 = Some ''A''"
    by (simp add: generate_part_000_spec spec_assign_def mulberry32_def mulberry32_next_2026 Let_def
        swap_at_def flip: numeral_2_eq_2)
  ultimately show False
    using e by simp
qed

section \<open>How often each name appears\<close>

lemma mset_concat_replicate: "mset (concat (replicate q p)) = repeat_mset q (mset p)"
  by (induction q) simp_all

lemma mset_fillSquares:
  assumes "0 < length p"
  shows "mset (fillSquares p)
         = repeat_mset (100 div length p) (mset p) + mset (take (100 mod length p) p)"
  by (simp add: fillSquares_decomp [OF assms] mset_concat_replicate)

lemma count_fillSquares_distinct:
  assumes "distinct p" "0 < length p" "y \<in> set p"
  shows "count (mset (fillSquares p)) y
         = 100 div length p + (if y \<in> set (take (100 mod length p) p) then 1 else 0)"
proof -
  have "count (mset p) y = 1"
    using assms(1,3) by (simp add: distinct_count_atmost_1)
  moreover have "distinct (take (100 mod length p) p)"
    using assms(1) by simp
  then have "count (mset (take (100 mod length p) p)) y
             = (if y \<in> set (take (100 mod length p) p) then 1 else 0)"
    by (simp add: distinct_count_atmost_1)
  ultimately show ?thesis
    by (simp add: mset_fillSquares [OF assms(2)])
qed

lemma ceil_div_nat:
  assumes "0 < (n::nat)"
  shows "(m + n - 1) div n = m div n + (if m mod n = 0 then 0 else 1)"
proof -
  define r where "r = m mod n"
  define q where "q = m div n"
  have m: "m = r + q * n"
    by (simp add: q_def r_def)
  have r: "r < n"
    using assms by (simp add: r_def)
  show ?thesis
  proof (cases "r = 0")
    case True
    have "m + n - 1 = (n - 1) + q * n"
      using m True assms by simp
    moreover have "((n - 1) + q * n) div n = q + (n - 1) div n"
      using assms by (intro div_mult_self1) simp
    moreover have "(n - 1) div n = 0"
      using assms by simp
    ultimately have "(m + n - 1) div n = q"
      by simp
    then show ?thesis
      using True by (simp add: q_def r_def)
  next
    case False
    have "m + n - 1 = (r - 1) + (q + 1) * n"
      using m False by simp
    moreover have "((r - 1) + (q + 1) * n) div n = (q + 1) + (r - 1) div n"
      using assms by (intro div_mult_self1) simp
    moreover have "(r - 1) div n = 0"
      using r by simp
    ultimately have "(m + n - 1) div n = q + 1"
      by simp
    then show ?thesis
      using False by (simp add: q_def r_def)
  qed
qed

lemma fill_counts:
  fixes names :: "'a list" and out p :: "'a js_array"
  assumes dn: "distinct names"
    and n1: "1 \<le> length names"
    and mp: "mset p = mset (map Some names)"
    and mo: "mset out = mset (fillSquares p)"
  shows "(\<forall>x\<in>set names. 100 div length names \<le> count_list out (Some x)
            \<and> count_list out (Some x) \<le> (100 + length names - 1) div length names)
       \<and> card {x \<in> set names. count_list out (Some x) = 100 div length names + 1}
           = 100 mod length names
       \<and> (length names = 100 \<longrightarrow> (\<forall>x\<in>set names. count_list out (Some x) = 1))"
proof -
  let ?n = "length names"
  let ?q = "100 div ?n"
  let ?r = "100 mod ?n"
  have lp: "length p = ?n"
    using mp by (metis length_map size_mset)
  have sp: "set p = Some ` set names"
    using mp by (metis set_map set_mset_mset)
  have dp: "distinct p"
    using mp dn by (metis distinct_map inj_Some inj_on_subset subset_UNIV mset_eq_imp_distinct_iff)
  have "names \<noteq> []"
    using n1 by auto
  then have pos: "0 < length p"
    using lp by simp
  have cnt: "count_list out (Some x) = ?q + (if Some x \<in> set (take ?r p) then 1 else 0)"
    if "x \<in> set names" for x
  proof -
    have "Some x \<in> set p"
      using that sp by simp
    from count_fillSquares_distinct [OF dp pos this] show ?thesis
      using mo lp by (simp flip: count_mset)
  qed
  have npos: "0 < ?n"
    using lp pos by simp
  have ceil: "(100 + ?n - 1) div ?n = ?q + (if ?r = 0 then 0 else 1)"
    by (rule ceil_div_nat [OF npos])
  have bounds: "\<forall>x\<in>set names. ?q \<le> count_list out (Some x)
            \<and> count_list out (Some x) \<le> (100 + ?n - 1) div ?n"
  proof
    fix x
    assume x: "x \<in> set names"
    show "?q \<le> count_list out (Some x) \<and> count_list out (Some x) \<le> (100 + ?n - 1) div ?n"
    proof (cases "?r = 0")
      case True
      then show ?thesis
        unfolding ceil using cnt [OF x] by simp
    next
      case False
      then show ?thesis
        unfolding ceil using cnt [OF x] by simp
    qed
  qed
  have "{x \<in> set names. count_list out (Some x) = ?q + 1}
        = {x \<in> set names. Some x \<in> set (take ?r p)}"
    using cnt by (auto split: if_splits)
  moreover have "Some ` {x \<in> set names. Some x \<in> set (take ?r p)} = set (take ?r p)"
  proof -
    have "set (take ?r p) \<subseteq> Some ` set names"
      using sp set_take_subset [of ?r p] by simp
    then show ?thesis
      by auto
  qed
  moreover have "card (Some ` {x \<in> set names. Some x \<in> set (take ?r p)})
                 = card {x \<in> set names. Some x \<in> set (take ?r p)}"
    by (intro card_image) (simp add: inj_on_def)
  moreover have "card (set (take ?r p)) = ?r"
  proof -
    have "distinct (take ?r p)"
      using dp by simp
    then have "card (set (take ?r p)) = length (take ?r p)"
      by (rule distinct_card)
    moreover have "?r \<le> length p"
      using lp pos by simp
    ultimately show ?thesis
      by simp
  qed
  ultimately have card: "card {x \<in> set names. count_list out (Some x) = ?q + 1} = ?r"
    by simp
  have once: "?n = 100 \<longrightarrow> (\<forall>x\<in>set names. count_list out (Some x) = 1)"
    using cnt by simp
  show ?thesis
    using bounds card once by blast
qed

lemma generate_docs_app_mset:
  "mset (generate_docs_app names seed) = mset (fillSquares (map Some names))"
  using shuffleArray_unit [OF mulberry32_unit_doubles, of "fillSquares (map Some names)" "mulberry32 seed"]
  by (simp add: generate_docs_app_def Let_def length_fillSquares)

lemma shuffled_names_mset:
  assumes "length names \<le> 100"
  shows "mset (fst (shuffleArray (map Some names) mulberry32_next (mulberry32 seed)))
         = mset (map Some names)"
  using shuffleArray_unit [OF mulberry32_unit_doubles, of "map Some names" "mulberry32 seed"] assms
  by simp

text \<open>
  The claim as worded fails in two ways. A name entered twice fills all 100 squares when
  the list is A, A: more than \<open>ceil(100/2) = 50\<close>. And when the length divides 100 the
  two counts coincide: for A, B both names appear \<open>ceil(100/2)\<close> times, not
  \<open>100 mod 2 = 0\<close> of them.
\<close>

theorem name_counts_counterexample:
  "\<not> (count_list (generate_part_000 [''A'', ''A''] 1) (Some ''A'')
        \<le> (100 + length [''A'', ''A''] - 1) div length [''A'', ''A''])
   \<and> card {x \<in> set [''A'', ''B''].
           count_list (generate_part_000 [''A'', ''B''] 1) (Some x)
           = (100 + length [''A'', ''B''] - 1) div length [''A'', ''B'']}
       \<noteq> 100 mod length [''A'', ''B'']"
proof -
  let ?p = "fst (shuffleArray [Some ''A'', Some ''A''] mulberry32_next (mulberry32 1))"
  have mp: "mset ?p = mset [Some ''A'', Some ''A'']"
    using shuffled_names_mset [of "[''A'', ''A'']" 1] by simp
  have "size (mset ?p) = 2"
    by (simp only: mp) simp
  then have lp: "length ?p = 2"
    by simp
  have pos: "0 < length ?p"
    using lp by simp
  have "count (mset (fillSquares ?p)) (Some ''A'') = 50 * count (mset ?p) (Some ''A'')"
    using mset_fillSquares [OF pos] lp by simp
  also have "\<dots> = 100"
    by (simp add: mp)
  finally have a: "count_list (generate_part_000 [''A'', ''A''] 1) (Some ''A'') = 100"
    by (simp add: generate_part_000_def Let_def flip: count_mset)
  let ?out = "generate_part_000 [''A'', ''B''] 1"
  have d: "distinct [''A'', ''B'']" and n: "1 \<le> length [''A'', ''B'']"
    by simp_all
  have mo: "mset ?out
     = mset (fillSquares (fst (shuffleArray (map Some [''A'', ''B'']) mulberry32_next (mulberry32 1))))"
    by (simp add: generate_part_000_def Let_def)
  have "\<forall>x\<in>set [''A'', ''B'']. 100 div length [''A'', ''B''] \<le> count_list ?out (Some x)
            \<and> count_list ?out (Some x) \<le> (100 + length [''A'', ''B''] - 1) div length [''A'', ''B'']"
    using fill_counts [OF d n shuffled_names_mset mo] by simp
  then have "\<forall>x\<in>set [''A'', ''B'']. count_list ?out (Some x) = 50"
    by (simp flip: numeral_2_eq_2)
  then have "{x \<in> set [''A'', ''B'']. count_list ?out (Some x) = 50} = {''A'', ''B''}"
    by auto
  then have b: "card {x \<in> set [''A'', ''B'']. count_list ?out (Some x) = 50} = 2"
    by simp
  show ?thesis
    using a b by (simp flip: numeral_2_eq_2)
qed

text \<open>
  C2 (amended): for every list of n pairwise different names, \<open>1 \<le> n \<le> 100\<close>, and
  every integer seed, in the 100 squares produced by either handler every name appears
  at least \<open>floor(100/n)\<close> and at most \<open>ceil(100/n)\<close> times, the number of names
  appearing \<open>floor(100/n) + 1\<close> times equals \<open>100 mod n\<close>, and when \<open>n = 100\<close> each
  name appears exactly once.
\<close>

theorem name_counts_distinct:
  assumes "distinct names" "1 \<le> length names" "length names \<le> 100"
    and "out = generate_docs_app names seed \<or> out = generate_part_000 names seed"
  shows "(\<forall>x\<in>set names. 100 div length names \<le> count_list out (Some x)
            \<and> count_list out (Some x) \<le> (100 + length names - 1) div length names)
       \<and> card {x \<in> set names. count_list out (Some x) = 100 div length names + 1}
           = 100 mod length names
       \<and> (length names = 100 \<longrightarrow> (\<forall>x\<in>set names. count_list out (Some x) = 1))"
  using assms(4)
proof
  assume "out = generate_docs_app names seed"
  then have "mset out = mset (fillSquares (map Some names))"
    by (simp add: generate_docs_app_mset)
  from fill_counts [OF assms(1,2) refl this] show ?thesis .
next
  assume "out = generate_part_000 names seed"
  then have "mset out = mset (fillSquares (fst (shuffleArray (map Some names) mulberry32_next (mulberry32 seed))))"
    by (simp add: generate_part_000_def Let_def)
  from fill_counts [OF assms(1,2) shuffled_names_mset [OF assms(3)] this] show ?thesis .
qed

theorem name_counts_distinct_witness:
  "distinct [''A'', ''B'', ''C''] \<and> 1 \<le> length [''A'', ''B'', ''C'']
   \<and> length [''A'', ''B'', ''C''] \<le> (100::nat)
   \<and> 33 \<le> count_list (generate_part_000 [''A'', ''B'', ''C''] 1) (Some ''C'')
   \<and> count_list (generate_part_000 [''A'', ''B'', ''C''] 1) (Some ''C'') \<le> 34
   \<and> card {x \<in> set [''A'', ''B'', ''C''].
          count_list (generate_part_000 [''A'', ''B'', ''C''] 1) (Some x) = 34} = 1"
proof -
  have d: "distinct [''A'', ''B'', ''C'']"
    and a: "1 \<le> length [''A'', ''B'', ''C'']"
    and b: "length [''A'', ''B'', ''C''] \<le> (100::nat)"
    by simp_all
  have o: "generate_part_000 [''A'', ''B'', ''C''] 1 = generate_docs_app [''A'', ''B'', ''C''] 1
           \<or> generate_part_000 [''A'', ''B'', ''C''] 1 = generate_part_000 [''A'', ''B'', ''C''] 1"
    by simp
  from name_counts_distinct [OF d a b o] d a b show ?thesis
    by (simp flip: numeral_3_eq_3)
qed

section \<open>The two pipelines compared\<close>

lemma set_fillSquares:
  assumes "0 < length p" "length p \<le> 100"
  shows "set (fillSquares p) = set p"
proof -
  have "0 < 100 div length p"
    using assms by (simp add: div_greater_zero_iff)
  then have "set (concat (replicate (100 div length p) p)) = set p"
    by (cases "100 div length p") auto
  moreover have "set (take (100 mod length p) p) \<subseteq> set p"
    by (rule set_take_subset)
  ultimately show ?thesis
    by (auto simp: fillSquares_decomp [OF assms(1)])
qed

text \<open>
  C10 (amended): for every name list of length n, \<open>1 \<le> n \<le> 100\<close>, and every integer
  seed, the pipeline of \<open>src/docs/app.js\<close> (fill, then shuffle the 100 squares,
  consuming 99 draws) and the pipeline of \<open>src/unnamed/part_000\<close> (shuffle the name
  list, consuming \<open>n - 1\<close> draws, then fill) both produce 100 squares holding exactly
  the names of the list, and when n divides 100 the two results hold the same names with
  the same multiplicities. The two sequences themselves differ in general.
\<close>

theorem pipelines_related:
  assumes "1 \<le> length names" "length names \<le> 100"
  shows "length (generate_docs_app names seed) = 100
       \<and> length (generate_part_000 names seed) = 100
       \<and> set (generate_docs_app names seed) = Some ` set names
       \<and> set (generate_part_000 names seed) = Some ` set names
       \<and> (100 mod length names = 0 \<longrightarrow>
            mset (generate_docs_app names seed) = mset (generate_part_000 names seed))
       \<and> snd (shuffleArray (fillSquares (map Some names)) mulberry32_next (mulberry32 seed))
           = rng_state mulberry32_next 99 (mulberry32 seed)
       \<and> snd (shuffleArray (map Some names) mulberry32_next (mulberry32 seed))
           = rng_state mulberry32_next (length names - 1) (mulberry32 seed)"
proof -
  let ?p = "fst (shuffleArray (map Some names) mulberry32_next (mulberry32 seed))"
  let ?a = "map Some names"
  have ne: "names \<noteq> []"
    using assms(1) by auto
  have mp: "mset ?p = mset ?a"
    using assms(2) by (rule shuffled_names_mset)
  then have "size (mset ?p) = size (mset ?a)"
    by simp
  then have lp: "length ?p = length names"
    by simp
  have sp: "set ?p = Some ` set names"
    using mp by (metis set_map set_mset_mset)
  have posp: "0 < length ?p" and posa: "0 < length ?a"
    using lp ne by simp_all
  have l1: "length (generate_docs_app names seed) = 100"
    using shuffleArray_unit [OF mulberry32_unit_doubles, of "fillSquares ?a" "mulberry32 seed"]
    by (simp add: generate_docs_app_def Let_def length_fillSquares)
  have l2: "length (generate_part_000 names seed) = 100"
    by (simp add: generate_part_000_def Let_def length_fillSquares)
  have "set (generate_docs_app names seed) = set (fillSquares ?a)"
    using generate_docs_app_mset [of names seed] by (metis set_mset_mset)
  then have s1: "set (generate_docs_app names seed) = Some ` set names"
    using set_fillSquares [of ?a] ne assms(2) by simp
  have "set (generate_part_000 names seed) = set ?p"
    using set_fillSquares [OF posp] lp assms(2) by (simp add: generate_part_000_def Let_def)
  then have s2: "set (generate_part_000 names seed) = Some ` set names"
    using sp by simp
  have m: "mset (generate_docs_app names seed) = mset (generate_part_000 names seed)"
    if d: "100 mod length names = 0"
  proof -
    have "mset (fillSquares ?p) = repeat_mset (100 div length names) (mset ?p)"
      using mset_fillSquares [OF posp] d lp by simp
    moreover have "mset (fillSquares ?a) = repeat_mset (100 div length names) (mset ?a)"
      using mset_fillSquares [OF posa] d by simp
    ultimately show ?thesis
      using mp by (simp add: generate_docs_app_mset generate_part_000_def Let_def)
  qed
  have d1: "snd (shuffleArray (fillSquares ?a) mulberry32_next (mulberry32 seed))
           = rng_state mulberry32_next 99 (mulberry32 seed)"
    by (simp add: shuffleArray_state length_fillSquares)
  have d2: "snd (shuffleArray ?a mulberry32_next (mulberry32 seed))
           = rng_state mulberry32_next (length names - 1) (mulberry32 seed)"
    by (simp add: shuffleArray_state)
  show ?thesis
    using l1 l2 s1 s2 m d1 d2 by blast
qed

theorem pipelines_related_witness:
  "1 \<le> length [''A'', ''B''] \<and> length [''A'', ''B''] \<le> (100::nat)
   \<and> 100 mod length [''A'', ''B''] = 0
   \<and> mset (generate_docs_app [''A'', ''B''] 2026) = mset (generate_part_000 [''A'', ''B''] 2026)
   \<and> length (generate_docs_app [''A'', ''B''] 2026) = 100
   \<and> set (generate_part_000 [''A'', ''B''] 2026) = {Some ''A'', Some ''B''}"
proof -
  have a: "1 \<le> length [''A'', ''B'']" and b: "length [''A'', ''B''] \<le> (100::nat)"
    and c: "100 mod length [''A'', ''B''] = 0"
    by (simp_all flip: numeral_2_eq_2)
  from pipelines_related [OF a b, of 2026] a b c show ?thesis
    by simp
qed

section \<open>Seeds and generator instances\<close>

lemma rng_draw_0: "rng_draw rng 0 s = fst (rng s)"
  by (simp add: rng_draw_def)

lemma rng_draw_Suc: "rng_draw rng (Suc k) s = rng_draw rng k (snd (rng s))"
  by (simp add: rng_draw_def)

lemma mulberry32_bits_cong:
  assumes "seed mod 4294967296 = seed' mod 4294967296"
  shows "mulberry32_bits seed = mulberry32_bits seed'"
proof -
  have "take_bit LENGTH(32) seed = take_bit LENGTH(32) seed'"
    using assms by (simp add: take_bit_eq_mod)
  then have "(word_of_int seed :: 32 word) = word_of_int seed'"
    by (simp only: word_of_int_eq_iff)
  then show ?thesis
    by (simp add: mulberry32_bits_def)
qed

lemma mulberry32_next_cong:
  assumes "seed mod 4294967296 = seed' mod 4294967296"
  shows "mulberry32_next seed = mulberry32_next seed'"
  by (simp add: mulberry32_next_def mulberry32_bits_cong [OF assms])

lemma mulberry32_next_state_int32:
  "- 2147483648 \<le> snd (mulberry32_next s) \<and> snd (mulberry32_next s) < 2147483648"
proof -
  obtain out s1 where b: "mulberry32_bits s = (out, s1)"
    by (cases "mulberry32_bits s")
  have "- (2 ^ (LENGTH(32) - 1)) \<le> sint s1" "sint s1 < 2 ^ (LENGTH(32) - 1)"
    by (rule sint_ge, rule sint_lt)
  then show ?thesis
    by (simp add: mulberry32_next_def b)
qed

text \<open>
  C6: every integer seed is accepted (the model has no error branch) and is reduced to
  32 bits before use: seeds congruent modulo \<open>2^32\<close> give the same value at every draw
  index, the first call behaves as on the signed 32-bit representative of the seed, and
  from the first call on the captured variable holds a signed 32-bit integer.
\<close>

theorem mulberry32_seed_mod_2_32:
  assumes "seed mod 4294967296 = seed' mod 4294967296"
  shows "(\<forall>k. rng_draw mulberry32_next k (mulberry32 seed)
             = rng_draw mulberry32_next k (mulberry32 seed'))
       \<and> mulberry32_next (mulberry32 seed)
           = mulberry32_next (sint (word_of_int seed :: 32 word))
       \<and> - 2147483648 \<le> snd (mulberry32_next (mulberry32 seed))
       \<and> snd (mulberry32_next (mulberry32 seed)) < 2147483648"
proof -
  have e: "mulberry32_next seed = mulberry32_next seed'"
    by (rule mulberry32_next_cong [OF assms])
  have "rng_draw mulberry32_next k seed = rng_draw mulberry32_next k seed'" for k
    by (cases k) (simp_all add: rng_draw_0 rng_draw_Suc e)
  moreover have "seed mod 4294967296 = sint (word_of_int seed :: 32 word) mod 4294967296"
  proof -
    have "(word_of_int (sint (word_of_int seed :: 32 word)) :: 32 word) = word_of_int seed"
      by simp
    then have "take_bit LENGTH(32) (sint (word_of_int seed :: 32 word)) = take_bit LENGTH(32) seed"
      by (simp only: word_of_int_eq_iff)
    then show ?thesis
      by (simp add: take_bit_eq_mod)
  qed
  then have "mulberry32_next seed = mulberry32_next (sint (word_of_int seed :: 32 word))"
    by (rule mulberry32_next_cong)
  ultimately show ?thesis
    using mulberry32_next_state_int32 [of seed] by (simp add: mulberry32_def)
qed

theorem mulberry32_seed_mod_2_32_witness:
  "(- 4294967295) mod 4294967296 = (4294967297::int) mod 4294967296
   \<and> rng_draw mulberry32_next 0 (mulberry32 (- 4294967295)) = 2693262067 / 4294967296
   \<and> rng_draw mulberry32_next 0 (mulberry32 4294967297) = 2693262067 / 4294967296
   \<and> rng_draw mulberry32_next 1 (mulberry32 (- 4294967295))
       = rng_draw mulberry32_next 1 (mulberry32 4294967297)"
proof -
  have c: "(- 4294967295) mod 4294967296 = (4294967297::int) mod 4294967296"
    by simp
  have v: "rng_draw mulberry32_next 0 (mulberry32 4294967297) = 2693262067 / 4294967296"
    by (simp add: rng_draw_def mulberry32_def mulberry32_next_def mulberry32_bits_def Let_def)
  from mulberry32_seed_mod_2_32 [OF c] c v show ?thesis
    by simp
qed

lemma length_call_gen: "length (snd (call_gen g st)) = length st"
  by (simp add: call_gen_def split: prod.split)

lemma run_calls_values:
  "g < length st \<Longrightarrow>
     values_of g (run_calls sched st)
       = map (\<lambda>k. rng_draw mulberry32_next k (st ! g)) [0..<count_list sched g]"
proof (induction sched arbitrary: st)
  case Nil
  then show ?case by (simp add: values_of_def)
next
  case (Cons h sched)
  obtain v st' where c: "call_gen h st = (v, st')"
    by (cases "call_gen h st")
  have l: "g < length st'"
    using length_call_gen [of h st] c Cons.prems by simp
  have ih: "values_of g (run_calls sched st')
       = map (\<lambda>k. rng_draw mulberry32_next k (st' ! g)) [0..<count_list sched g]"
    by (rule Cons.IH [OF l])
  show ?case
  proof (cases "h = g")
    case True
    have v: "v = fst (mulberry32_next (st ! g))" and s: "st' ! g = snd (mulberry32_next (st ! g))"
      using c True Cons.prems by (auto simp: call_gen_def split: prod.splits)
    have "values_of g (run_calls (h # sched) st) = v # values_of g (run_calls sched st')"
      using True c by (simp add: values_of_def)
    also have "\<dots> = rng_draw mulberry32_next 0 (st ! g)
                 # map (\<lambda>k. rng_draw mulberry32_next (Suc k) (st ! g)) [0..<count_list sched g]"
      by (simp add: ih v s rng_draw_0 rng_draw_Suc)
    also have "\<dots> = map (\<lambda>k. rng_draw mulberry32_next k (st ! g)) [0..<Suc (count_list sched g)]"
      by (simp only: map_upt_Suc)
    finally show ?thesis
      using True by simp
  next
    case False
    have s: "st' ! g = st ! g"
      using c False by (auto simp: call_gen_def split: prod.splits)
    have "values_of g (run_calls (h # sched) st) = values_of g (run_calls sched st')"
      using False c by (simp add: values_of_def)
    then show ?thesis
      using False by (simp add: ih s)
  qed
qed

text \<open>
  C4: two generator instances created independently with the same seed return the same
  value at every draw index, and advancing one never affects the other: whatever the
  order in which the two (and any other generators of the store) are called, the values
  each of them returns are the draws 0, 1, 2, ... of that seed.
\<close>

theorem same_seed_instances_identical_and_independent:
  "(case mulberry32_create seed st of
      (g1, st1) \<Rightarrow>
        (case mulberry32_create seed st1 of
           (g2, st2) \<Rightarrow>
             g1 \<noteq> g2
             \<and> (\<forall>sched.
                  values_of g1 (run_calls sched st2)
                    = map (\<lambda>k. rng_draw mulberry32_next k (mulberry32 seed))
                        [0..<count_list sched g1]
                  \<and> values_of g2 (run_calls sched st2)
                    = map (\<lambda>k. rng_draw mulberry32_next k (mulberry32 seed))
                        [0..<count_list sched g2])))"
proof -
  let ?st2 = "(st @ [mulberry32 seed]) @ [mulberry32 seed]"
  let ?g1 = "length st"
  let ?g2 = "Suc (length st)"
  have a: "?g1 < length ?st2" "?st2 ! ?g1 = mulberry32 seed"
    by (simp_all add: nth_append)
  have b: "?g2 < length ?st2" "?st2 ! ?g2 = mulberry32 seed"
    by (simp_all add: nth_append)
  have "values_of ?g1 (run_calls sched ?st2)
          = map (\<lambda>k. rng_draw mulberry32_next k (mulberry32 seed)) [0..<count_list sched ?g1]
        \<and> values_of ?g2 (run_calls sched ?st2)
          = map (\<lambda>k. rng_draw mulberry32_next k (mulberry32 seed)) [0..<count_list sched ?g2]"
    for sched
    using run_calls_values [OF a(1), of sched] run_calls_values [OF b(1), of sched]
    by (simp only: a(2) b(2))
  then show ?thesis
    by (simp add: mulberry32_create_def)
qed

section \<open>Validation in the submit handler\<close>

lemma submit_part_000_reject:
  assumes "\<not> (1 \<le> length (parseNames (names_input f))
              \<and> length (parseNames (names_input f)) \<le> 100
              \<and> parseInt (seed_input f) \<noteq> None)"
  shows "fst (submit_part_000 f out) \<noteq> None \<and> snd (submit_part_000 f out) = out"
  using assms by (auto simp: submit_part_000_def Let_def Suc_le_eq split: option.splits prod.splits)

lemma submit_part_000_accept:
  assumes "1 \<le> length (parseNames (names_input f))"
    "length (parseNames (names_input f)) \<le> 100"
    "parseInt (seed_input f) = Some sd"
  shows "fst (submit_part_000 f out) = None
       \<and> \<not> hidden (snd (submit_part_000 f out))
       \<and> table_squares (children (snd (submit_part_000 f out)))
           = Some (generate_part_000 (parseNames (names_input f)) sd)"
proof -
  obtain names' rng' where
    sh: "shuffleArray (map Some (parseNames (names_input f))) mulberry32_next (mulberry32 sd)
         = (names', rng')"
    by (cases "shuffleArray (map Some (parseNames (names_input f))) mulberry32_next (mulberry32 sd)")
  have ne: "parseNames (names_input f) \<noteq> []"
    using assms(1) by auto
  show ?thesis
    using assms(2,3) ne by (simp add: submit_part_000_def generate_part_000_def Let_def sh)
qed

lemma submit_docs_app_reject:
  assumes "\<not> (1 \<le> length (parseNames (names_input f))
              \<and> length (parseNames (names_input f)) \<le> 100
              \<and> parseInt (seed_input f) \<noteq> None)"
  shows "fst (submit_docs_app f out) \<noteq> None \<and> snd (submit_docs_app f out) = out"
  using assms by (auto simp: submit_docs_app_def Let_def Suc_le_eq split: option.splits prod.splits)

lemma submit_docs_app_accept:
  assumes "1 \<le> length (parseNames (names_input f))"
    "length (parseNames (names_input f)) \<le> 100"
    "parseInt (seed_input f) = Some sd"
  shows "fst (submit_docs_app f out) = None
       \<and> \<not> hidden (snd (submit_docs_app f out))
       \<and> table_squares (children (snd (submit_docs_app f out)))
           = Some (generate_docs_app (parseNames (names_input f)) sd)"
proof -
  obtain filled' rng' where
    sh: "shuffleArray (fillSquares (map Some (parseNames (names_input f)))) mulberry32_next (mulberry32 sd)
         = (filled', rng')"
    by (cases "shuffleArray (fillSquares (map Some (parseNames (names_input f)))) mulberry32_next (mulberry32 sd)")
  have ne: "parseNames (names_input f) \<noteq> []"
    using assms(1) by auto
  show ?thesis
    using assms(2,3) ne by (simp add: submit_docs_app_def generate_docs_app_def Let_def sh)
qed

text \<open>
  C8: the submit handler generates a grid if and only if the parsed name list has
  between 1 and 100 entries and the seed input parses to a number. On an empty list, on
  more than 100 names and on a seed that is not a number it alerts and returns with the
  output section as it was; otherwise it replaces the output section's content, shows
  it, and the table holds the 100 squares generated from the parsed names and seed.
\<close>

theorem submit_generates_iff_valid:
  "(fst (submit_part_000 f out) = None)
     = (1 \<le> length (parseNames (names_input f))
        \<and> length (parseNames (names_input f)) \<le> 100
        \<and> parseInt (seed_input f) \<noteq> None)
   \<and> (fst (submit_part_000 f out) \<noteq> None \<longrightarrow> snd (submit_part_000 f out) = out)
   \<and> (fst (submit_part_000 f out) = None \<longrightarrow>
        (\<exists>sd. parseInt (seed_input f) = Some sd
           \<and> \<not> hidden (snd (submit_part_000 f out))
           \<and> table_squares (children (snd (submit_part_000 f out)))
               = Some (generate_part_000 (parseNames (names_input f)) sd)))"
proof -
  let ?A = "fst (submit_part_000 f out) = None"
  let ?V = "1 \<le> length (parseNames (names_input f))
        \<and> length (parseNames (names_input f)) \<le> 100
        \<and> parseInt (seed_input f) \<noteq> None"
  show ?thesis
  proof (cases ?V)
    case True
    then obtain sd where sd: "parseInt (seed_input f) = Some sd"
      by auto
    have r: "?A \<and> \<not> hidden (snd (submit_part_000 f out))
         \<and> table_squares (children (snd (submit_part_000 f out)))
             = Some (generate_part_000 (parseNames (names_input f)) sd)"
      using True by (intro submit_part_000_accept sd) simp_all
    have 1: "?A = ?V"
      using r True by simp
    have 2: "\<not> ?A \<longrightarrow> snd (submit_part_000 f out) = out"
      using r by simp
    have 3: "?A \<longrightarrow> (\<exists>sd. parseInt (seed_input f) = Some sd
           \<and> \<not> hidden (snd (submit_part_000 f out))
           \<and> table_squares (children (snd (submit_part_000 f out)))
               = Some (generate_part_000 (parseNames (names_input f)) sd))"
      using r sd by simp
    show ?thesis
      using 1 2 3 by simp
  next
    case False
    have r: "\<not> ?A \<and> snd (submit_part_000 f out) = out"
      by (rule submit_part_000_reject [OF False])
    have 1: "?A = ?V"
      using r False by auto
    show ?thesis
      using 1 r by auto
  qed
qed

lemma parseNames_ex: "parseNames (''A'' @ [newline] @ ''B'') = [''A'', ''B'']"
  by (simp add: parseNames_def newline_def trim_def is_js_space_def)

lemma parseInt_2026: "parseInt ''2026'' = Some 2026"
  by (simp add: parseInt_def is_js_space_def is_digit_def digits_value_def)

theorem submit_generates_iff_valid_witness:
  "fst (submit_part_000
          \<lparr>names_input = ''A'' @ [newline] @ ''B'', seed_input = ''2026'',
            col_team_input = ''X'', row_team_input = []\<rparr> fresh_output) = None
   \<and> table_squares (children (snd (submit_part_000
          \<lparr>names_input = ''A'' @ [newline] @ ''B'', seed_input = ''2026'',
            col_team_input = ''X'', row_team_input = []\<rparr> fresh_output)))
       = Some (generate_part_000 [''A'', ''B''] 2026)
   \<and> fst (submit_part_000
          \<lparr>names_input = ''A'' @ [newline] @ ''B'', seed_input = ''x'',
            col_team_input = ''X'', row_team_input = []\<rparr> fresh_output) \<noteq> None
   \<and> snd (submit_part_000
          \<lparr>names_input = ''A'' @ [newline] @ ''B'', seed_input = ''x'',
            col_team_input = ''X'', row_team_input = []\<rparr> fresh_output) = fresh_output"
proof -
  let ?f = "\<lparr>names_input = ''A'' @ [newline] @ ''B'', seed_input = ''2026'',
            col_team_input = ''X'', row_team_input = []\<rparr>"
  let ?g = "\<lparr>names_input = ''A'' @ [newline] @ ''B'', seed_input = ''x'',
            col_team_input = ''X'', row_team_input = []\<rparr>"
  have n: "parseNames (names_input ?f) = [''A'', ''B'']" "parseNames (names_input ?g) = [''A'', ''B'']"
    using parseNames_ex by simp_all
  have s: "parseInt (seed_input ?f) = Some 2026"
    using parseInt_2026 by simp
  have x: "parseInt (seed_input ?g) = None"
    by (simp add: parseInt_def is_js_space_def is_digit_def)
  from submit_generates_iff_valid [of ?f fresh_output] submit_generates_iff_valid [of ?g fresh_output]
  show ?thesis
    by (simp only: n s x) simp
qed

section \<open>The link copied after a submit\<close>

lemma shuffleArray_A_B_2026:
  "shuffleArray [Some ''A'', Some ''B''] mulberry32_next (mulberry32 2026)
   = ([Some ''B'', Some ''A''], 1831567839)"
proof -
  have "fst (shuffleArray [Some ''A'', Some ''B''] mulberry32_next (mulberry32 2026))
        = [Some ''B'', Some ''A'']"
    by (simp add: shuffleArray_mulberry32_spec mulberry32_def mulberry32_next_2026 Let_def
        swap_at_def flip: numeral_2_eq_2)
  moreover have "snd (shuffleArray [Some ''A'', Some ''B''] mulberry32_next (mulberry32 2026))
        = 1831567839"
    by (simp add: shuffleArray_state mulberry32_def mulberry32_next_2026)
  ultimately show ?thesis
    by (simp add: prod_eq_iff)
qed

lemma parseNames_B_A: "parseNames (''B'' @ [newline] @ ''A'') = [''B'', ''A'']"
  by (simp add: parseNames_def newline_def trim_def is_js_space_def)

lemma load_params_B_A:
  "load_params [(''names'', ''B,A''), (''seed'', ''2026'')] fresh_form
   = \<lparr>names_input = ''B'' @ [newline] @ ''A'', seed_input = ''2026'',
      col_team_input = [], row_team_input = []\<rparr>"
  by (simp add: load_params_def fresh_form_def Let_def newline_def)

text \<open>
  C5 (a defect of the code): the share link does not reproduce the inputs.
  In \<open>src/unnamed/part_000\<close> the handler calls \<open>shuffleArray(names, rng)\<close>, which reorders
  \<open>names\<close> in place, and the click handler of the share button joins that same array.
  For the names A, B (one per line) and the seed 2026 the page shows the grid
  B, A, B, A, ...; the link carries \<open>names=B,A\<close> and \<open>seed=2026\<close>; the page opened from the
  link fills the form with the names B, A, which are not the names that were entered,
  shuffles them with the same seed and shows the grid A, B, A, B, ..., which is not the
  grid that was shared.
\<close>

theorem share_link_reorders_names:
  "parseNames (''A'' @ [newline] @ ''B'') = [''A'', ''B'']
   \<and> submit_part_000
        \<lparr>names_input = ''A'' @ [newline] @ ''B'', seed_input = ''2026'',
          col_team_input = [], row_team_input = []\<rparr> fresh_output
       = (None,
          \<lparr>hidden = False,
            children = [Info (Squares_each 2 50),
                        Table (generate_part_000 [''A'', ''B''] 2026) [] [],
                        Print_btn,
                        Share_btn [Some ''B'', Some ''A''] 2026 [] []]\<rparr>)
   \<and> share_link_of (children (snd (submit_part_000
        \<lparr>names_input = ''A'' @ [newline] @ ''B'', seed_input = ''2026'',
          col_team_input = [], row_team_input = []\<rparr> fresh_output)))
       = Some [(''names'', ''B,A''), (''seed'', ''2026'')]
   \<and> parseNames (names_input
        (fst (page_load [(''names'', ''B,A''), (''seed'', ''2026'')] fresh_form fresh_output)))
       = [''B'', ''A'']
   \<and> table_squares (children (snd (snd
        (page_load [(''names'', ''B,A''), (''seed'', ''2026'')] fresh_form fresh_output))))
       = Some (generate_part_000 [''B'', ''A''] 2026)
   \<and> generate_part_000 [''A'', ''B''] 2026 ! 0 = Some ''B''
   \<and> generate_part_000 [''B'', ''A''] 2026 ! 0 = Some ''A''
   \<and> generate_part_000 [''B'', ''A''] 2026 \<noteq> generate_part_000 [''A'', ''B''] 2026"
proof -
  let ?f = "\<lparr>names_input = ''A'' @ [newline] @ ''B'', seed_input = ''2026'',
          col_team_input = [], row_team_input = []\<rparr>"
  let ?ps = "[(''names'', ''B,A''), (''seed'', ''2026'')]"
  have a: "submit_part_000 ?f fresh_output
       = (None,
          \<lparr>hidden = False,
            children = [Info (Squares_each 2 50),
                        Table (generate_part_000 [''A'', ''B''] 2026) [] [],
                        Print_btn,
                        Share_btn [Some ''B'', Some ''A''] 2026 [] []]\<rparr>)"
    using parseNames_ex parseInt_2026
    by (simp add: submit_part_000_def generate_part_000_def Let_def shuffleArray_A_B_2026
        info_of_def trim_def flip: numeral_2_eq_2)
  have b: "share_params [Some ''B'', Some ''A''] 2026 [] [] = ?ps"
    by (simp add: share_params_def array_join_def number_toString_def nat_digits.simps
        digit_char_def)
  have s: "share_link_of (children (snd (submit_part_000 ?f fresh_output))) = Some ?ps"
    using a b by simp
  have l: "fst (page_load ?ps fresh_form fresh_output)
           = \<lparr>names_input = ''B'' @ [newline] @ ''A'', seed_input = ''2026'',
              col_team_input = [], row_team_input = []\<rparr>"
    by (simp add: page_load_def Let_def load_params_B_A)
  have n: "parseNames (names_input (fst (page_load ?ps fresh_form fresh_output))) = [''B'', ''A'']"
    by (simp only: l parseNames_B_A form.simps)
  have h: "1 \<le> length (parseNames (names_input (load_params ?ps fresh_form)))"
    "length (parseNames (names_input (load_params ?ps fresh_form))) \<le> 100"
    "parseInt (seed_input (load_params ?ps fresh_form)) = Some 2026"
    using parseNames_B_A parseInt_2026 by (simp_all add: load_params_B_A)
  have c: "table_squares (children (snd (snd (page_load ?ps fresh_form fresh_output))))
       = Some (generate_part_000 [''B'', ''A''] 2026)"
    using submit_part_000_accept [OF h, of fresh_output] parseNames_B_A
    by (simp add: page_load_def Let_def load_params_B_A)
  have d: "generate_part_000 [''A'', ''B''] 2026 ! 0 = Some ''B''"
    by (simp add: generate_part_000_spec spec_assign_def mulberry32_def mulberry32_next_2026 Let_def
        swap_at_def flip: numeral_2_eq_2)
  have e: "generate_part_000 [''B'', ''A''] 2026 ! 0 = Some ''A''"
    by (simp add: generate_part_000_spec spec_assign_def mulberry32_def mulberry32_next_2026 Let_def
        swap_at_def flip: numeral_2_eq_2)
  have g: "generate_part_000 [''B'', ''A''] 2026 \<noteq> generate_part_000 [''A'', ''B''] 2026"
  proof
    assume "generate_part_000 [''B'', ''A''] 2026 = generate_part_000 [''A'', ''B''] 2026"
    then have "generate_part_000 [''B'', ''A''] 2026 ! 0 = generate_part_000 [''A'', ''B''] 2026 ! 0"
      by simp
    then show False
      by (simp only: d e) simp
  qed
  show ?thesis
    using parseNames_ex a s n c d e g by simp
qed

end
